theory Spec2Isabelle
  imports Main "HOL-Library.Word" "HOL-Library.Sublist" "HOL-Library.AList"
begin

section \<open>Python values used by app.py\<close>

text \<open>
  A Python \<open>str\<close> is a sequence of Unicode code points and a \<open>bytes\<close> object a sequence
  of octets.  String literals of the source are written with \<open>py\<close>.
\<close>

type_synonym byte = "8 word"
type_synonym pystr = "nat list"

definition py :: "string \<Rightarrow> pystr" where
  "py s = map of_char s"

text \<open>
  The exceptions that can reach the code: one raised inside PyPDF2 or python-docx, one
  raised by the service call, and the built-in ones.
\<close>

datatype exn =
    LibraryError string
  | ServiceError string
  | IndexError
  | KeyError pystr
  | TypeError
  | JSONDecodeError

text \<open>
  The values \<open>json.loads\<close> builds.  A \<open>dict\<close> is an association list with distinct
  keys in insertion order.  A \<open>float\<close> is kept as the literal it was read from.
\<close>

datatype pyvalue =
    PNone
  | PBool bool
  | PInt int
  | PFloat pystr
  | PStr pystr
  | PList "pyvalue list"
  | PDict "(pystr \<times> pyvalue) list"

text \<open>
  The Streamlit calls of the source, recorded in the order they are made.  An f-string is
  the list of its literal pieces and of the values it formats.
\<close>

datatype fpart = Lit pystr | Fmt pyvalue

datatype st_call =
    st_error pystr
  | st_warning pystr
  | st_text pyvalue
  | st_subheader pystr
  | st_metric pystr "fpart list"
  | st_write "fpart list"
  | st_markdown "fpart list"
  | st_columns nat

section \<open>bytes.decode("utf-8", errors="ignore")\<close>

text \<open>
  The decoder of CPython with the \<open>ignore\<close> error handler.  A lead byte that cannot start
  a sequence is skipped alone; when a continuation byte is wrong, the bytes read so far
  are skipped and decoding resumes at the offending byte; a sequence cut off by the end of
  the input is dropped.  Overlong forms (lead bytes C0, C1, E0 followed by 80..9F, F0
  followed by 80..8F), surrogates (ED followed by A0..BF) and code points above 10FFFF
  are rejected in the same way.
\<close>

definition is_continuation_byte :: "byte \<Rightarrow> bool" where
  "is_continuation_byte b \<longleftrightarrow> 0x80 \<le> b \<and> b < 0xC0"

fun utf8_decode_ignore :: "byte list \<Rightarrow> pystr" where
  "utf8_decode_ignore [] = []"
| "utf8_decode_ignore (ch # s) =
    (if ch < 0x80 then unat ch # utf8_decode_ignore s
     else if ch < 0xC2 then utf8_decode_ignore s
     else if ch < 0xE0 then
       (case s of
          [] \<Rightarrow> []
        | ch2 # s2 \<Rightarrow>
            if \<not> is_continuation_byte ch2 then utf8_decode_ignore s
            else (unat ch * 2 ^ 6 + unat ch2 - (0xC0 * 2 ^ 6 + 0x80)) # utf8_decode_ignore s2)
     else if ch < 0xF0 then
       (case s of
          [] \<Rightarrow> []
        | ch2 # s2 \<Rightarrow>
            if \<not> is_continuation_byte ch2 \<or> (if ch2 < 0xA0 then ch = 0xE0 else ch = 0xED)
            then utf8_decode_ignore s
            else
              (case s2 of
                 [] \<Rightarrow> []
               | ch3 # s3 \<Rightarrow>
                   if \<not> is_continuation_byte ch3 then utf8_decode_ignore s2
                   else (unat ch * 2 ^ 12 + unat ch2 * 2 ^ 6 + unat ch3
                          - (0xE0 * 2 ^ 12 + 0x80 * 2 ^ 6 + 0x80)) # utf8_decode_ignore s3))
     else if ch < 0xF5 then
       (case s of
          [] \<Rightarrow> []
        | ch2 # s2 \<Rightarrow>
            if \<not> is_continuation_byte ch2 \<or> (if ch2 < 0x90 then ch = 0xF0 else ch = 0xF4)
            then utf8_decode_ignore s
            else
              (case s2 of
                 [] \<Rightarrow> []
               | ch3 # s3 \<Rightarrow>
                   if \<not> is_continuation_byte ch3 then utf8_decode_ignore s2
                   else
                     (case s3 of
                        [] \<Rightarrow> []
                      | ch4 # s4 \<Rightarrow>
                          if \<not> is_continuation_byte ch4 then utf8_decode_ignore s3
                          else (unat ch * 2 ^ 18 + unat ch2 * 2 ^ 12 + unat ch3 * 2 ^ 6 + unat ch4
                                 - (0xF0 * 2 ^ 18 + 0x80 * 2 ^ 12 + 0x80 * 2 ^ 6 + 0x80))
                               # utf8_decode_ignore s4)))
     else utf8_decode_ignore s)"

section \<open>str.encode("utf-8")\<close>

text \<open>
  The UTF-8 encoding of a string (RFC 3629), the reference against which the decoder is
  read: a byte string is valid UTF-8 when it is the encoding of a list of Unicode scalar
  values, and its decoding is that list.
\<close>

definition unicode_scalar :: "nat \<Rightarrow> bool" where
  "unicode_scalar c \<longleftrightarrow> c < 0xD800 \<or> (0xE000 \<le> c \<and> c < 0x110000)"

definition utf8_encode_char :: "nat \<Rightarrow> byte list" where
  "utf8_encode_char c =
    (if c < 0x80 then [of_nat c]
     else if c < 0x800 then [of_nat (0xC0 + c div 2 ^ 6), of_nat (0x80 + c mod 2 ^ 6)]
     else if c < 0x10000 then
       [of_nat (0xE0 + c div 2 ^ 12), of_nat (0x80 + c div 2 ^ 6 mod 2 ^ 6),
        of_nat (0x80 + c mod 2 ^ 6)]
     else
       [of_nat (0xF0 + c div 2 ^ 18), of_nat (0x80 + c div 2 ^ 12 mod 2 ^ 6),
        of_nat (0x80 + c div 2 ^ 6 mod 2 ^ 6), of_nat (0x80 + c mod 2 ^ 6)])"

definition utf8_encode :: "pystr \<Rightarrow> byte list" where
  "utf8_encode s = concat (map utf8_encode_char s)"

text \<open>
  \<open>decode_step bs pre cps rest\<close>: on the input \<open>bs = pre @ rest\<close> the decoder turns
  the nonempty prefix \<open>pre\<close> into \<open>cps\<close> and goes on with \<open>rest\<close>; the prefix is
  either dropped or decoded to the code points it encodes.
\<close>

definition decode_step :: "byte list \<Rightarrow> byte list \<Rightarrow> pystr \<Rightarrow> byte list \<Rightarrow> bool" where
  "decode_step bs pre cps rest \<longleftrightarrow>
     bs = pre @ rest \<and> pre \<noteq> [] \<and>
     utf8_decode_ignore bs = cps @ utf8_decode_ignore rest \<and>
     (cps = [] \<or> utf8_encode cps = pre)"

section \<open>The uploaded file and the optional parsing libraries\<close>

text \<open>
  Streamlit's \<open>UploadedFile\<close> is an in-memory byte stream with a declared media type
  and a read position.  \<open>read()\<close> returns the bytes from the position to the end and
  leaves the position at the end.
\<close>

record uploaded_file =
  type :: pystr
  data :: "byte list"
  pos :: nat

definition read :: "uploaded_file \<Rightarrow> byte list \<times> uploaded_file" where
  "read f = (drop (pos f) (data f), f\<lparr>pos := max (pos f) (length (data f))\<rparr>)"

text \<open>
  PyPDF2 and python-docx are imported inside the function and may be absent
  (\<open>ImportError\<close>, modelled by \<open>None\<close>).  When present, a parser reads the whole stream
  by absolute seeks, so its result depends on the payload only; it either raises or
  yields the pages (each page's \<open>extract_text()\<close> raising, returning \<open>None\<close> or
  returning a string) or the paragraph texts.  \<open>tell_after_parse\<close> is the position
  at which a parser leaves the stream.
\<close>

type_synonym pdf_page = "exn + pystr option"

record runtime =
  PdfReader :: "(byte list \<Rightarrow> exn + pdf_page list) option"
  Document :: "(byte list \<Rightarrow> exn + pystr list) option"
  tell_after_parse :: "byte list \<Rightarrow> nat"

section \<open>extract_text_from_file\<close>

text \<open>\<open>x or ""\<close> for the result \<open>x\<close> of \<open>page.extract_text()\<close>.\<close>

definition or_empty :: "pystr option \<Rightarrow> pystr" where
  "or_empty x = (case x of None \<Rightarrow> [] | Some t \<Rightarrow> if t = [] then [] else t)"

text \<open>The loop \<open>for page in reader.pages: text += page.extract_text() or ""\<close>.\<close>

fun page_loop :: "pdf_page list \<Rightarrow> pystr \<Rightarrow> exn + pystr" where
  "page_loop [] txt = Inr txt"
| "page_loop (page # pages) txt =
    (case page of
       Inl e \<Rightarrow> Inl e
     | Inr x \<Rightarrow> page_loop pages (txt @ or_empty x))"

text \<open>\<open>sep.join(xs)\<close>.\<close>

fun join :: "pystr \<Rightarrow> pystr list \<Rightarrow> pystr" where
  "join sep [] = []"
| "join sep [x] = x"
| "join sep (x # y # ys) = x @ sep @ join sep (y # ys)"

definition parsed :: "runtime \<Rightarrow> uploaded_file \<Rightarrow> uploaded_file" where
  "parsed rt f = f\<lparr>pos := tell_after_parse rt (data f)\<rparr>"

text \<open>
  The result is the returned string or the exception that escapes, the diagnostics shown
  through Streamlit in order, and the file object after the call.
\<close>

definition extract_text_from_file ::
  "runtime \<Rightarrow> uploaded_file option \<Rightarrow> (exn + pystr) \<times> st_call list \<times> uploaded_file option"
where
  "extract_text_from_file rt uploaded_file =
    (case uploaded_file of
       None \<Rightarrow> (Inr [], [], None)
     | Some f \<Rightarrow>
         if type f = py ''text/plain'' then
           (Inr (utf8_decode_ignore (fst (read f))), [], Some (snd (read f)))
         else if type f = py ''application/pdf'' then
           (case PdfReader rt of
              None \<Rightarrow>
                (Inr [], [st_error (py ''PyPDF2 missing. Add to requirements.txt'')], Some f)
            | Some reader \<Rightarrow>
                (case reader (data f) of
                   Inl e \<Rightarrow> (Inl e, [], Some (parsed rt f))
                 | Inr pages \<Rightarrow> (page_loop pages [], [], Some (parsed rt f))))
         else if type f =
             py ''application/vnd.openxmlformats-officedocument.wordprocessingml.document'' then
           (case Document rt of
              None \<Rightarrow>
                (Inr [], [st_error (py ''python-docx missing. Add to requirements.txt'')], Some f)
            | Some document \<Rightarrow>
                (case document (data f) of
                   Inl e \<Rightarrow> (Inl e, [], Some (parsed rt f))
                 | Inr paragraphs \<Rightarrow> (Inr (join (py [CHR 0x0A]) paragraphs), [], Some (parsed rt f))))
         else (Inr [], [st_warning (py ''Unsupported file type'')], Some f))"

section \<open>json.loads\<close>

text \<open>
  The decoder of the standard library on a \<open>str\<close>: \<open>scanstring\<close>, the number pattern,
  \<open>scan_once\<close> with \<open>JSONObject\<close> and \<open>JSONArray\<close>, and \<open>JSONDecoder.decode\<close>.
  Each function takes the input that is left and returns the value with the rest.  Every
  syntax error is a \<open>JSONDecodeError\<close>; the source catches it whatever its message.
  The interpreter's limits (recursion depth, digits of an integer) are not modelled.
  The loops of \<open>JSONObject\<close> and \<open>JSONArray\<close> compare the length of the input left
  with the length of their input before they go on; these comparisons make termination
  evident and never fail (\<open>JSONObject_pairs_unguarded\<close>, \<open>JSONArray_values_unguarded\<close>).
\<close>

definition is_ws :: "nat \<Rightarrow> bool" where
  "is_ws c \<longleftrightarrow> c = 0x20 \<or> c = 0x09 \<or> c = 0x0A \<or> c = 0x0D"

definition skip_ws :: "pystr \<Rightarrow> pystr" where
  "skip_ws s = dropWhile is_ws s"

definition is_digit :: "nat \<Rightarrow> bool" where
  "is_digit c \<longleftrightarrow> 0x30 \<le> c \<and> c \<le> 0x39"

definition hex_digit :: "nat \<Rightarrow> nat option" where
  "hex_digit c =
    (if 0x30 \<le> c \<and> c \<le> 0x39 then Some (c - 0x30)
     else if 0x61 \<le> c \<and> c \<le> 0x66 then Some (c - 0x61 + 10)
     else if 0x41 \<le> c \<and> c \<le> 0x46 then Some (c - 0x41 + 10)
     else None)"

definition decode_uXXXX :: "pystr \<Rightarrow> (nat \<times> pystr) option" where
  "decode_uXXXX s =
    (case s of
       a # b # c # d # r \<Rightarrow>
         (case (hex_digit a, hex_digit b, hex_digit c, hex_digit d) of
            (Some x3, Some x2, Some x1, Some x0) \<Rightarrow> Some (((x3 * 16 + x2) * 16 + x1) * 16 + x0, r)
          | _ \<Rightarrow> None)
     | _ \<Rightarrow> None)"

definition backslash :: "nat \<Rightarrow> nat option" where
  "backslash esc =
    (if esc = 0x22 then Some 0x22
     else if esc = 0x5C then Some 0x5C
     else if esc = 0x2F then Some 0x2F
     else if esc = 0x62 then Some 0x08
     else if esc = 0x66 then Some 0x0C
     else if esc = 0x6E then Some 0x0A
     else if esc = 0x72 then Some 0x0D
     else if esc = 0x74 then Some 0x09
     else None)"

lemma decode_uXXXX_length: "decode_uXXXX s = Some (uni, r) \<Longrightarrow> length s = length r + 4"
  by (auto simp: decode_uXXXX_def split: list.splits option.splits)

function scanstring :: "pystr \<Rightarrow> pystr \<Rightarrow> exn + (pystr \<times> pystr)" where
  "scanstring [] acc = Inl JSONDecodeError"
| "scanstring (c # s) acc =
    (if c = 0x22 then Inr (acc, s)
     else if c = 0x5C then
       (case s of
          [] \<Rightarrow> Inl JSONDecodeError
        | esc # s1 \<Rightarrow>
            if esc \<noteq> 0x75 then
              (case backslash esc of
                 None \<Rightarrow> Inl JSONDecodeError
               | Some char \<Rightarrow> scanstring s1 (acc @ [char]))
            else
              (case decode_uXXXX s1 of
                 None \<Rightarrow> Inl JSONDecodeError
               | Some (uni, s2) \<Rightarrow>
                   (case s2 of
                      b # u # s3 \<Rightarrow>
                        if 0xD800 \<le> uni \<and> uni \<le> 0xDBFF \<and> b = 0x5C \<and> u = 0x75 then
                          (case decode_uXXXX s3 of
                             None \<Rightarrow> Inl JSONDecodeError
                           | Some (uni2, s4) \<Rightarrow>
                               if 0xDC00 \<le> uni2 \<and> uni2 \<le> 0xDFFF
                               then scanstring s4
                                 (acc @ [0x10000 + (uni - 0xD800) * 2 ^ 10 + (uni2 - 0xDC00)])
                               else scanstring s2 (acc @ [uni]))
                        else scanstring s2 (acc @ [uni])
                    | _ \<Rightarrow> scanstring s2 (acc @ [uni]))))
     else if c \<le> 0x1F then Inl JSONDecodeError
     else scanstring s (acc @ [c]))"
  by pat_completeness auto
termination
  by (relation "measure (\<lambda>(s, acc). length s)") (auto dest!: decode_uXXXX_length)


definition number_frac :: "pystr \<Rightarrow> pystr \<times> pystr" where
  "number_frac s =
    (case s of
       dot # d # r \<Rightarrow>
         if dot = 0x2E \<and> is_digit d
         then (dot # d # takeWhile is_digit r, dropWhile is_digit r)
         else ([], s)
     | _ \<Rightarrow> ([], s))"

definition number_exp :: "pystr \<Rightarrow> pystr \<times> pystr" where
  "number_exp s =
    (case s of
       [] \<Rightarrow> ([], s)
     | e # r \<Rightarrow>
         if e = 0x65 \<or> e = 0x45 then
           (case (case r of
                    [] \<Rightarrow> ([], r)
                  | c # r' \<Rightarrow> if c = 0x2D \<or> c = 0x2B then ([c], r') else ([], r)) of
              (sign, r1) \<Rightarrow>
                if takeWhile is_digit r1 = [] then ([], s)
                else (e # sign @ takeWhile is_digit r1, dropWhile is_digit r1))
         else ([], s))"

definition number_integer :: "pystr \<Rightarrow> (pystr \<times> pystr) option" where
  "number_integer s =
    (case (case s of
             [] \<Rightarrow> ([], s)
           | c # r \<Rightarrow> if c = 0x2D then ([c], r) else ([], s)) of
       (sign, s1) \<Rightarrow>
         (case s1 of
            [] \<Rightarrow> None
          | d # r \<Rightarrow>
              if d = 0x30 then Some (sign @ [d], r)
              else if 0x31 \<le> d \<and> d \<le> 0x39
              then Some (sign @ d # takeWhile is_digit r, dropWhile is_digit r)
              else None))"

definition match_number :: "pystr \<Rightarrow> (pystr \<times> pystr \<times> pystr \<times> pystr) option" where
  "match_number s =
    (case number_integer s of
       None \<Rightarrow> None
     | Some (integer, s1) \<Rightarrow>
         (case number_frac s1 of
            (frac, s2) \<Rightarrow>
              (case number_exp s2 of
                 (exp, s3) \<Rightarrow> Some (integer, frac, exp, s3))))"

definition digits_value :: "pystr \<Rightarrow> int" where
  "digits_value ds = foldl (\<lambda>n c. n * 10 + (int c - 0x30)) 0 ds"

definition parse_int :: "pystr \<Rightarrow> int" where
  "parse_int integer =
    (case integer of
       [] \<Rightarrow> 0
     | c # ds \<Rightarrow> if c = 0x2D then - digits_value ds else digits_value integer)"

definition dict :: "(pystr \<times> pyvalue) list \<Rightarrow> (pystr \<times> pyvalue) list" where
  "dict pairs = foldl (\<lambda>d (k, v). AList.update k v d) [] pairs"

lemma length_skip_ws: "length (skip_ws s) \<le> length s"
  by (simp add: skip_ws_def length_dropWhile_le)

lemma skip_ws_Cons_length: "skip_ws s = c # r \<Longrightarrow> length r < length s"
  using length_skip_ws [of s] by simp

lemma skip_ws_measure: "length s < n \<Longrightarrow> 2 * length (skip_ws s) < Suc (2 * n)"
  using length_skip_ws [of s] by linarith

lemma skip_ws_less: "length s < n \<Longrightarrow> length (skip_ws s) < n"
  using length_skip_ws [of s] by linarith

function scan_once :: "pystr \<Rightarrow> exn + (pyvalue \<times> pystr)"
  and JSONObject_pairs :: "pystr \<Rightarrow> (pystr \<times> pyvalue) list \<Rightarrow> exn + (pyvalue \<times> pystr)"
  and JSONArray_values :: "pystr \<Rightarrow> pyvalue list \<Rightarrow> exn + (pyvalue \<times> pystr)"
where
  "scan_once s =
    (case s of
       [] \<Rightarrow> Inl JSONDecodeError
     | nextchar # s1 \<Rightarrow>
         if nextchar = 0x22 then
           (case scanstring s1 [] of
              Inl e \<Rightarrow> Inl e
            | Inr (t, r) \<Rightarrow> Inr (PStr t, r))
         else if nextchar = 0x7B then
           (case skip_ws s1 of
              [] \<Rightarrow> Inl JSONDecodeError
            | c # r \<Rightarrow>
                if c = 0x7D then Inr (PDict [], r)
                else if c = 0x22 then JSONObject_pairs r []
                else Inl JSONDecodeError)
         else if nextchar = 0x5B then
           (case skip_ws s1 of
              [] \<Rightarrow> Inl JSONDecodeError
            | c # r \<Rightarrow>
                if c = 0x5D then Inr (PList [], r)
                else JSONArray_values (c # r) [])
         else if prefix (py ''null'') s then Inr (PNone, drop 4 s)
         else if prefix (py ''true'') s then Inr (PBool True, drop 4 s)
         else if prefix (py ''false'') s then Inr (PBool False, drop 5 s)
         else
           (case match_number s of
              Some (integer, frac, exp, r) \<Rightarrow>
                if frac \<noteq> [] \<or> exp \<noteq> [] then Inr (PFloat (integer @ frac @ exp), r)
                else Inr (PInt (parse_int integer), r)
            | None \<Rightarrow>
                if prefix (py ''NaN'') s then Inr (PFloat (py ''NaN''), drop 3 s)
                else if prefix (py ''Infinity'') s then Inr (PFloat (py ''Infinity''), drop 8 s)
                else if prefix (py ''-Infinity'') s then Inr (PFloat (py ''-Infinity''), drop 9 s)
                else Inl JSONDecodeError))"
| "JSONObject_pairs s pairs =
    (case scanstring s [] of
       Inl e \<Rightarrow> Inl e
     | Inr (key, r) \<Rightarrow>
         (case skip_ws r of
            [] \<Rightarrow> Inl JSONDecodeError
          | colon # r1 \<Rightarrow>
              if colon \<noteq> 0x3A then Inl JSONDecodeError
              else if \<not> length r1 < length s then Inl JSONDecodeError
              else
                (case scan_once (skip_ws r1) of
                   Inl e \<Rightarrow> Inl e
                 | Inr (v, r2) \<Rightarrow>
                     (case skip_ws r2 of
                        [] \<Rightarrow> Inl JSONDecodeError
                      | c # r3 \<Rightarrow>
                          if c = 0x7D then Inr (PDict (dict (pairs @ [(key, v)])), r3)
                          else if c \<noteq> 0x2C then Inl JSONDecodeError
                          else
                            (case skip_ws r3 of
                               [] \<Rightarrow> Inl JSONDecodeError
                             | q # r4 \<Rightarrow>
                                 if q \<noteq> 0x22 then Inl JSONDecodeError
                                 else if \<not> length r4 < length s then Inl JSONDecodeError
                                 else JSONObject_pairs r4 (pairs @ [(key, v)]))))))"
| "JSONArray_values s vals =
    (case scan_once s of
       Inl e \<Rightarrow> Inl e
     | Inr (v, r) \<Rightarrow>
         (case skip_ws r of
            [] \<Rightarrow> Inl JSONDecodeError
          | c # r1 \<Rightarrow>
              if c = 0x5D then Inr (PList (vals @ [v]), r1)
              else if c \<noteq> 0x2C then Inl JSONDecodeError
              else if \<not> length r1 < length s then Inl JSONDecodeError
              else JSONArray_values (skip_ws r1) (vals @ [v])))"
  by pat_completeness auto

termination
  by (relation "measure (\<lambda>x. case x of
      Inl s \<Rightarrow> 2 * length s
    | Inr (Inl (s, pairs)) \<Rightarrow> 2 * length s + 1
    | Inr (Inr (s, vals)) \<Rightarrow> 2 * length s + 1)")
   (auto dest!: skip_ws_Cons_length intro: skip_ws_measure skip_ws_less)

definition json_loads :: "pystr option \<Rightarrow> exn + pyvalue" where
  "json_loads content =
    (case content of
       None \<Rightarrow> Inl TypeError
     | Some s \<Rightarrow>
         if prefix [0xFEFF] s then Inl JSONDecodeError
         else
           (case scan_once (skip_ws s) of
              Inl e \<Rightarrow> Inl e
            | Inr (obj, r) \<Rightarrow> if skip_ws r = [] then Inr obj else Inl JSONDecodeError))"


section \<open>analyze_resume\<close>

text \<open>
  The client is the request/response call \<open>client.chat.completions.create\<close>: it raises
  or returns the choices, each with the \<open>content\<close> of its message (a string or
  \<open>None\<close>).  The temperature is kept as the literal of the source.
\<close>

record chat_request =
  model :: pystr
  temperature :: pystr
  response_format :: pystr
  messages :: "(pystr \<times> pystr) list"

type_synonym chat_response = "pystr option list"
type_synonym client = "chat_request \<Rightarrow> exn + chat_response"

definition system_prompt :: pystr where
  \<open>system_prompt = concat (map (\<lambda>line. py line @ [0x0A])
    ['''',
     ''You are an expert HR recruiter and ATS system.'',
     ''Compare a candidate's resume with a job description.'',
     '''',
     ''Return ONLY valid JSON with structure:'',
     ''{'',
     ''  "match_score": int,'',
     ''  "verdict": "Strong match" | "Moderate match" | "Weak match",'',
     ''  "summary": "overall summary",'',
     ''  "strengths": ["point1", "point2"],'',
     ''  "gaps": ["gap1", "gap2"],'',
     ''  "improvement_suggestions": ["suggestion1", "suggestion2"],'',
     ''  "recommended_role_level": "Junior / Mid-level / Senior"'',
     ''}''])\<close>

definition user_content :: "pystr \<Rightarrow> pystr \<Rightarrow> pystr" where
  "user_content resume_text jd_text =
    [0x0A] @ py ''JOB DESCRIPTION:'' @ [0x0A] @ jd_text @ [0x0A, 0x0A]
      @ py ''RESUME:'' @ [0x0A] @ resume_text @ [0x0A]"

definition request :: "pystr \<Rightarrow> pystr \<Rightarrow> chat_request" where
  "request resume_text jd_text =
    \<lparr>model = py ''gpt-4.1-mini'',
     temperature = py ''0.2'',
     response_format = py ''json_object'',
     messages =
       [(py ''system'', system_prompt),
        (py ''user'', user_content resume_text jd_text)]\<rparr>"

definition analyze_resume :: "client \<Rightarrow> pystr \<Rightarrow> pystr \<Rightarrow> exn + pyvalue" where
  "analyze_resume client resume_text jd_text =
    (case client (request resume_text jd_text) of
       Inl e \<Rightarrow> Inl e
     | Inr choices \<Rightarrow>
         (case choices of
            [] \<Rightarrow> Inl IndexError
          | content # _ \<Rightarrow>
              (case json_loads content of
                 Inr result \<Rightarrow> Inr result
               | Inl _ \<Rightarrow>
                   Inr (PDict
                     [(py ''error'', PStr (py ''Invalid JSON from model'')),
                      (py ''raw'', case content of None \<Rightarrow> PNone | Some c \<Rightarrow> PStr c)]))))"

section \<open>What main does with the result\<close>

text \<open>
  Lines 140 to 167 of \<open>main\<close>.  \<open>"error" in result\<close>, \<open>result[key]\<close> and
  \<open>for x in value\<close> on the values \<open>json.loads\<close> can return.
\<close>

fun substring :: "pystr \<Rightarrow> pystr \<Rightarrow> bool" where
  "substring k [] \<longleftrightarrow> k = []"
| "substring k (c # t) \<longleftrightarrow> prefix k (c # t) \<or> substring k t"

definition contains :: "pyvalue \<Rightarrow> pystr \<Rightarrow> exn + bool" where
  "contains v k =
    (case v of
       PDict d \<Rightarrow> Inr (k \<in> set (map fst d))
     | PList xs \<Rightarrow> Inr (PStr k \<in> set xs)
     | PStr t \<Rightarrow> Inr (substring k t)
     | _ \<Rightarrow> Inl TypeError)"

definition getitem :: "pyvalue \<Rightarrow> pystr \<Rightarrow> exn + pyvalue" where
  "getitem v k =
    (case v of
       PDict d \<Rightarrow> (case map_of d k of None \<Rightarrow> Inl (KeyError k) | Some x \<Rightarrow> Inr x)
     | _ \<Rightarrow> Inl TypeError)"

definition iterate :: "pyvalue \<Rightarrow> exn + pyvalue list" where
  "iterate v =
    (case v of
       PList xs \<Rightarrow> Inr xs
     | PStr t \<Rightarrow> Inr (map (\<lambda>c. PStr [c]) t)
     | PDict d \<Rightarrow> Inr (map (\<lambda>(k, x). PStr k) d)
     | _ \<Rightarrow> Inl TypeError)"

datatype container = page | colA | colB

type_synonym ui_event = "container \<times> st_call"

text \<open>
  A statement either raises while it evaluates its arguments or makes its Streamlit
  calls.  The statements run in order up to the first one that raises.
\<close>

fun run :: "(exn + ui_event list) list \<Rightarrow> ui_event list \<times> exn option" where
  "run [] = ([], None)"
| "run (Inl e # _) = ([], Some e)"
| "run (Inr evs # stmts) = (case run stmts of (evs', r) \<Rightarrow> (evs @ evs', r))"

definition with_item ::
  "pyvalue \<Rightarrow> string \<Rightarrow> (pyvalue \<Rightarrow> ui_event list) \<Rightarrow> exn + ui_event list" where
  "with_item result k f =
    (case getitem result (py k) of Inl e \<Rightarrow> Inl e | Inr v \<Rightarrow> Inr (f v))"

definition for_item ::
  "pyvalue \<Rightarrow> string \<Rightarrow> (pyvalue \<Rightarrow> ui_event) \<Rightarrow> exn + ui_event list" where
  "for_item result k f =
    (case getitem result (py k) of
       Inl e \<Rightarrow> Inl e
     | Inr v \<Rightarrow> (case iterate v of Inl e \<Rightarrow> Inl e | Inr xs \<Rightarrow> Inr (map f xs)))"

definition main_result :: "pyvalue \<Rightarrow> ui_event list \<times> exn option" where
  "main_result result =
    (case contains result (py ''error'') of
       Inl e \<Rightarrow> ([], Some e)
     | Inr True \<Rightarrow>
         run
          [Inr [(page, st_error (py ''Model error: Could not parse response''))],
           with_item result ''raw'' (\<lambda>raw. [(page, st_text raw)])]
     | Inr False \<Rightarrow>
         run
          [Inr [(page, st_subheader ([0x1F4CA] @ py '' Match Summary''))],
           with_item result ''match_score''
             (\<lambda>v. [(page, st_metric (py ''Match Score'') [Fmt v, Lit (py ''/100'')])]),
           with_item result ''verdict''
             (\<lambda>v. [(page, st_write [Lit (py ''**Verdict:** ''), Fmt v])]),
           with_item result ''summary''
             (\<lambda>v. [(page, st_write [Lit (py ''**Summary:** ''), Fmt v])]),
           Inr [(page, st_columns 2)],
           Inr [(colA, st_markdown [Lit (py ''### '' @ [0x2705] @ py '' Strengths'')])],
           for_item result ''strengths'' (\<lambda>s. (colA, st_markdown [Lit (py ''- ''), Fmt s])),
           Inr [(colB, st_markdown [Lit (py ''### '' @ [0x26A0, 0xFE0F] @ py '' Gaps'')])],
           for_item result ''gaps'' (\<lambda>g. (colB, st_markdown [Lit (py ''- ''), Fmt g])),
           Inr [(page, st_markdown
             [Lit (py ''### '' @ [0x1F6E0] @ py '' Suggestions to Improve Resume'')])],
           for_item result ''improvement_suggestions''
             (\<lambda>sug. (page, st_markdown [Lit (py ''- ''), Fmt sug])),
           with_item result ''recommended_role_level''
             (\<lambda>v. [(page, st_write [Lit (py ''**Recommended Role Level:** ''), Fmt v])])])"

section \<open>Concrete runtimes and services\<close>

text \<open>
  Fixtures on which the functions are evaluated: a runtime without the optional
  libraries; a runtime whose parsers reject the empty payload, as PyPDF2 and python-docx
  do, and yield the given pages and paragraphs for any other payload; a service that
  answers every request with the given choices.
\<close>

definition no_parsers :: runtime where
  "no_parsers = \<lparr>PdfReader = None, Document = None, tell_after_parse = length\<rparr>"

definition stub_runtime :: "pdf_page list \<Rightarrow> pystr list \<Rightarrow> runtime" where
  "stub_runtime pages paragraphs =
    \<lparr>PdfReader = Some (\<lambda>payload.
       if payload = [] then Inl (LibraryError ''EmptyFileError'') else Inr pages),
     Document = Some (\<lambda>payload.
       if payload = [] then Inl (LibraryError ''BadZipFile'') else Inr paragraphs),
     tell_after_parse = length\<rparr>"

definition canned_client :: "chat_response \<Rightarrow> client" where
  "canned_client choices = (\<lambda>req. Inr choices)"

section \<open>Properties of the UTF-8 decoder\<close>

text \<open>Comparisons of bytes read on their values.\<close>

lemma byte_less: "(a :: byte) < b \<longleftrightarrow> unat a < unat b"
  by (rule word_less_nat_alt)

lemma byte_le: "(a :: byte) \<le> b \<longleftrightarrow> unat a \<le> unat b"
  by (rule word_le_nat_alt)

lemma decode_1:
  assumes "unat ch < 0x80"
  shows "utf8_decode_ignore (ch # s) = unat ch # utf8_decode_ignore s"
  using assms by (simp add: byte_less)

lemma decode_2:
  assumes "0xC2 \<le> unat ch" "unat ch < 0xE0" "0x80 \<le> unat ch2" "unat ch2 < 0xC0"
  shows "utf8_decode_ignore (ch # ch2 # s) =
    (unat ch * 2 ^ 6 + unat ch2 - (0xC0 * 2 ^ 6 + 0x80)) # utf8_decode_ignore s"
  using assms by (simp add: byte_less byte_le is_continuation_byte_def)

text \<open>Digits of a code point in base 64.\<close>

lemma div_range:
  fixes c k :: nat
  assumes "a * k \<le> c" "c < b * k" "0 < k"
  shows "a \<le> c div k \<and> c div k < b"
proof
  have "(a * k) div k \<le> c div k" using assms(1) by (rule div_le_mono)
  then show "a \<le> c div k" using assms(3) by simp
  show "c div k < b" using assms(2) by (rule less_mult_imp_div_less)
qed

lemma mid_digit:
  fixes c :: nat
  assumes "c div (64 * m) = h" "a * m \<le> c" "c < b * m" "0 < m" "h * 64 \<le> a" "b \<le> h * 64 + 64"
  shows "a - h * 64 \<le> c div m mod 64 \<and> c div m mod 64 < b - h * 64"
proof -
  define q where "q = c div m"
  have r: "a \<le> q \<and> q < b" unfolding q_def using assms(2,3,4) by (intro div_range) auto
  have "q div 64 = h" unfolding q_def using assms(1) by (simp add: div_mult2_eq mult.commute)
  moreover have "q = (q div 64) * 64 + q mod 64" by simp
  ultimately have "q = h * 64 + q mod 64" by simp
  with r show ?thesis unfolding q_def [symmetric] using assms(5,6) by linarith
qed

lemma no_overlong_3: "0x800 \<le> c \<Longrightarrow> c div 4096 = 0 \<Longrightarrow> 32 \<le> c div 64 mod 64" for c :: nat
proof -
  assume a: "0x800 \<le> c" "c div 4096 = 0"
  then have "c < 4096" by simp
  with a mid_digit [of c 64 0 32 64] show ?thesis by simp
qed

lemma below_surrogates: "c < 0xD800 \<Longrightarrow> c div 4096 = 13 \<Longrightarrow> c div 64 mod 64 < 32" for c :: nat
proof -
  assume a: "c < 0xD800" "c div 4096 = 13"
  have "13 * 4096 \<le> c"
  proof (rule ccontr)
    assume "\<not> 13 * 4096 \<le> c"
    then have "c < 13 * 4096" by simp
    then have "c div 4096 < 13" by (rule less_mult_imp_div_less)
    with a show False by simp
  qed
  with a mid_digit [of c 64 13 832 864] show ?thesis by simp
qed

lemma above_surrogates: "0xE000 \<le> c \<Longrightarrow> c div 4096 \<noteq> 13" for c :: nat
  using div_le_mono [of "0xE000" c 4096] by simp

lemma no_overlong_4: "0x10000 \<le> c \<Longrightarrow> c div 262144 = 0 \<Longrightarrow> 16 \<le> c div 4096 mod 64" for c :: nat
proof -
  assume a: "0x10000 \<le> c" "c div 262144 = 0"
  then have "c < 262144" by simp
  with a mid_digit [of c 4096 0 16 64] show ?thesis by simp
qed

lemma within_unicode: "c < 0x110000 \<Longrightarrow> c div 262144 = 4 \<Longrightarrow> c div 4096 mod 64 < 16" for c :: nat
proof -
  assume a: "c < 0x110000" "c div 262144 = 4"
  have "4 * 262144 \<le> c"
  proof (rule ccontr)
    assume "\<not> 4 * 262144 \<le> c"
    then have "c < 4 * 262144" by simp
    then have "c div 262144 < 4" by (rule less_mult_imp_div_less)
    with a show False by simp
  qed
  with a mid_digit [of c 4096 4 256 272] show ?thesis by simp
qed

lemma digits3: "c div 4096 * 4096 + (c div 64 mod 64 * 64 + c mod 64) = c" for c :: nat
proof -
  define q where "q = c div 64"
  have "q div 64 = c div 4096" unfolding q_def by (simp add: div_mult2_eq)
  moreover have "q = (q div 64) * 64 + q mod 64" by simp
  moreover have "c = q * 64 + c mod 64" unfolding q_def by simp
  ultimately show ?thesis unfolding q_def [symmetric] by linarith
qed

lemma digits4:
  "c div 262144 * 262144 + (c div 4096 mod 64 * 4096 + (c div 64 mod 64 * 64 + c mod 64)) = c"
  for c :: nat
proof -
  define p where "p = c div 4096"
  have "p div 64 = c div 262144" unfolding p_def by (simp add: div_mult2_eq)
  moreover have "p = (p div 64) * 64 + p mod 64" by simp
  moreover have "c = p * 4096 + (c div 64 mod 64 * 64 + c mod 64)"
    unfolding p_def using digits3 [of c] by simp
  ultimately show ?thesis unfolding p_def [symmetric] by linarith
qed

lemma decode_3:
  assumes "0xE0 \<le> unat ch" "unat ch < 0xF0" "0x80 \<le> unat ch2" "unat ch2 < 0xC0"
    "0x80 \<le> unat ch3" "unat ch3 < 0xC0"
    "unat ch = 0xE0 \<longrightarrow> 0xA0 \<le> unat ch2" "unat ch = 0xED \<longrightarrow> unat ch2 < 0xA0"
  shows "utf8_decode_ignore (ch # ch2 # ch3 # s) =
    (unat ch * 2 ^ 12 + unat ch2 * 2 ^ 6 + unat ch3 - (0xE0 * 2 ^ 12 + 0x80 * 2 ^ 6 + 0x80))
      # utf8_decode_ignore s"
proof -
  have e: "ch = 0xE0 \<longleftrightarrow> unat ch = 0xE0" "ch = 0xED \<longleftrightarrow> unat ch = 0xED"
    by (simp_all add: word_unat_eq_iff)
  have c: "\<not> ch < 0x80" "\<not> ch < 0xC2" "\<not> ch < 0xE0" "ch < 0xF0"
    "is_continuation_byte ch2" "is_continuation_byte ch3"
    using assms by (simp_all add: byte_less byte_le is_continuation_byte_def)
  have d: "\<not> (if ch2 < 0xA0 then ch = 0xE0 else ch = 0xED)"
    using assms by (auto simp: byte_less e)
  show ?thesis
    by (simp add: c d)
qed

lemma decode_4:
  assumes "0xF0 \<le> unat ch" "unat ch < 0xF5" "0x80 \<le> unat ch2" "unat ch2 < 0xC0"
    "0x80 \<le> unat ch3" "unat ch3 < 0xC0" "0x80 \<le> unat ch4" "unat ch4 < 0xC0"
    "unat ch = 0xF0 \<longrightarrow> 0x90 \<le> unat ch2" "unat ch = 0xF4 \<longrightarrow> unat ch2 < 0x90"
  shows "utf8_decode_ignore (ch # ch2 # ch3 # ch4 # s) =
    (unat ch * 2 ^ 18 + unat ch2 * 2 ^ 12 + unat ch3 * 2 ^ 6 + unat ch4
       - (0xF0 * 2 ^ 18 + 0x80 * 2 ^ 12 + 0x80 * 2 ^ 6 + 0x80))
      # utf8_decode_ignore s"
proof -
  have e: "ch = 0xF0 \<longleftrightarrow> unat ch = 0xF0" "ch = 0xF4 \<longleftrightarrow> unat ch = 0xF4"
    by (simp_all add: word_unat_eq_iff)
  have c: "\<not> ch < 0x80" "\<not> ch < 0xC2" "\<not> ch < 0xE0" "\<not> ch < 0xF0" "ch < 0xF5"
    "is_continuation_byte ch2" "is_continuation_byte ch3" "is_continuation_byte ch4"
    using assms by (simp_all add: byte_less byte_le is_continuation_byte_def)
  have d: "\<not> (if ch2 < 0x90 then ch = 0xF0 else ch = 0xF4)"
    using assms by (auto simp: byte_less e)
  show ?thesis
    by (simp add: c d)
qed

text \<open>Decoding the encoding of one scalar value gives it back.\<close>

lemma unat_byte: "n < 256 \<Longrightarrow> unat (of_nat n :: byte) = n"
  by (simp add: unat_of_nat)

lemma decode_encode_char:
  assumes "unicode_scalar c"
  shows "utf8_decode_ignore (utf8_encode_char c @ s) = c # utf8_decode_ignore s"
proof -
  consider "c < 0x80" | "0x80 \<le> c" "c < 0x800" | "0x800 \<le> c" "c < 0x10000"
    | "0x10000 \<le> c" "c < 0x110000"
  proof -
    have "c < 0x110000" using assms by (auto simp: unicode_scalar_def)
    then show ?thesis using that by linarith
  qed
  then show ?thesis
  proof cases
    case 1
    define b1 :: byte where "b1 = of_nat c"
    have u: "unat b1 = c"
      using 1 unfolding b1_def by (simp add: unat_byte)
    have "utf8_decode_ignore (b1 # s) = unat b1 # utf8_decode_ignore s"
      using 1 by (intro decode_1) (simp add: u)
    then show ?thesis
      using 1 u by (simp add: utf8_encode_char_def b1_def del: utf8_decode_ignore.simps)
  next
    case 2
    define b1 b2 :: byte where "b1 = of_nat (0xC0 + c div 2 ^ 6)" and "b2 = of_nat (0x80 + c mod 2 ^ 6)"
    have u: "unat b1 = 0xC0 + c div 2 ^ 6" "unat b2 = 0x80 + c mod 2 ^ 6"
    proof -
      have "c div 2 ^ 6 < 32" using 2 by (intro less_mult_imp_div_less) simp
      then show "unat b1 = 0xC0 + c div 2 ^ 6" unfolding b1_def by (intro unat_byte) simp
      show "unat b2 = 0x80 + c mod 2 ^ 6" unfolding b2_def by (intro unat_byte) simp
    qed
    have "utf8_decode_ignore (b1 # b2 # s)
        = (unat b1 * 2 ^ 6 + unat b2 - (0xC0 * 2 ^ 6 + 0x80)) # utf8_decode_ignore s"
      using 2 by (intro decode_2) (simp_all add: u)
    moreover have "unat b1 * 2 ^ 6 + unat b2 - (0xC0 * 2 ^ 6 + 0x80) = c"
      unfolding u by simp
    ultimately show ?thesis
      using 2 by (simp add: utf8_encode_char_def b1_def b2_def del: utf8_decode_ignore.simps)
  next
    case 3
    define b1 b2 b3 :: byte where "b1 = of_nat (0xE0 + c div 2 ^ 12)"
      and "b2 = of_nat (0x80 + c div 2 ^ 6 mod 2 ^ 6)" and "b3 = of_nat (0x80 + c mod 2 ^ 6)"
    have u: "unat b1 = 0xE0 + c div 2 ^ 12" "unat b2 = 0x80 + c div 2 ^ 6 mod 2 ^ 6"
      "unat b3 = 0x80 + c mod 2 ^ 6"
    proof -
      have "c div 2 ^ 12 < 16" using 3 by (intro less_mult_imp_div_less) simp
      then show "unat b1 = 0xE0 + c div 2 ^ 12" unfolding b1_def by (intro unat_byte) simp
      show "unat b2 = 0x80 + c div 2 ^ 6 mod 2 ^ 6" unfolding b2_def by (intro unat_byte) simp
      show "unat b3 = 0x80 + c mod 2 ^ 6" unfolding b3_def by (intro unat_byte) simp
    qed
    have s: "c < 0xD800 \<or> 0xE000 \<le> c" using assms by (auto simp: unicode_scalar_def)
    have "utf8_decode_ignore (b1 # b2 # b3 # s)
        = (unat b1 * 2 ^ 12 + unat b2 * 2 ^ 6 + unat b3 - (0xE0 * 2 ^ 12 + 0x80 * 2 ^ 6 + 0x80))
          # utf8_decode_ignore s"
    proof (intro decode_3)
      have o: "c div 2 ^ 12 = 0 \<longrightarrow> 32 \<le> c div 2 ^ 6 mod 2 ^ 6"
        using 3 no_overlong_3 [of c] by simp
      have g: "c div 2 ^ 12 = 13 \<longrightarrow> c div 2 ^ 6 mod 2 ^ 6 < 32"
        using s below_surrogates [of c] above_surrogates [of c] by auto
      have "c div 2 ^ 12 < 16" using 3 by (intro less_mult_imp_div_less) simp
      then show "unat b1 < 0xF0" by (simp add: u)
      show "unat b1 = 0xE0 \<longrightarrow> 0xA0 \<le> unat b2" using o by (simp add: u)
      show "unat b1 = 0xED \<longrightarrow> unat b2 < 0xA0" using g by (simp add: u)
    qed (simp_all add: u)
    moreover have "unat b1 * 2 ^ 12 + unat b2 * 2 ^ 6 + unat b3
        - (0xE0 * 2 ^ 12 + 0x80 * 2 ^ 6 + 0x80) = c"
      unfolding u using digits3 [of c] by simp
    ultimately show ?thesis
      using 3 by (simp add: utf8_encode_char_def b1_def b2_def b3_def del: utf8_decode_ignore.simps)
  next
    case 4
    define b1 b2 b3 b4 :: byte where "b1 = of_nat (0xF0 + c div 2 ^ 18)"
      and "b2 = of_nat (0x80 + c div 2 ^ 12 mod 2 ^ 6)"
      and "b3 = of_nat (0x80 + c div 2 ^ 6 mod 2 ^ 6)" and "b4 = of_nat (0x80 + c mod 2 ^ 6)"
    have u: "unat b1 = 0xF0 + c div 2 ^ 18" "unat b2 = 0x80 + c div 2 ^ 12 mod 2 ^ 6"
      "unat b3 = 0x80 + c div 2 ^ 6 mod 2 ^ 6" "unat b4 = 0x80 + c mod 2 ^ 6"
    proof -
      have "c div 2 ^ 18 < 5" using 4 by (intro less_mult_imp_div_less) simp
      then show "unat b1 = 0xF0 + c div 2 ^ 18" unfolding b1_def by (intro unat_byte) simp
      show "unat b2 = 0x80 + c div 2 ^ 12 mod 2 ^ 6" unfolding b2_def by (intro unat_byte) simp
      show "unat b3 = 0x80 + c div 2 ^ 6 mod 2 ^ 6" unfolding b3_def by (intro unat_byte) simp
      show "unat b4 = 0x80 + c mod 2 ^ 6" unfolding b4_def by (intro unat_byte) simp
    qed
    have "utf8_decode_ignore (b1 # b2 # b3 # b4 # s)
        = (unat b1 * 2 ^ 18 + unat b2 * 2 ^ 12 + unat b3 * 2 ^ 6 + unat b4
            - (0xF0 * 2 ^ 18 + 0x80 * 2 ^ 12 + 0x80 * 2 ^ 6 + 0x80))
          # utf8_decode_ignore s"
    proof (intro decode_4)
      have o: "c div 2 ^ 18 = 0 \<longrightarrow> 16 \<le> c div 2 ^ 12 mod 2 ^ 6"
        using 4 no_overlong_4 [of c] by simp
      have g: "c div 2 ^ 18 = 4 \<longrightarrow> c div 2 ^ 12 mod 2 ^ 6 < 16"
        using 4 within_unicode [of c] by simp
      have "c div 2 ^ 18 < 5" using 4 by (intro less_mult_imp_div_less) simp
      then show "unat b1 < 0xF5" by (simp add: u)
      show "unat b1 = 0xF0 \<longrightarrow> 0x90 \<le> unat b2" using o by (simp add: u)
      show "unat b1 = 0xF4 \<longrightarrow> unat b2 < 0x90" using g by (simp add: u)
    qed (simp_all add: u)
    moreover have "unat b1 * 2 ^ 18 + unat b2 * 2 ^ 12 + unat b3 * 2 ^ 6 + unat b4
            - (0xF0 * 2 ^ 18 + 0x80 * 2 ^ 12 + 0x80 * 2 ^ 6 + 0x80) = c"
      unfolding u using digits4 [of c] by simp
    ultimately show ?thesis
      using 4 by (simp add: utf8_encode_char_def b1_def b2_def b3_def b4_def del: utf8_decode_ignore.simps)
  qed
qed

text \<open>Encoding a decoded code point gives back the bytes it was read from.\<close>

lemma byte_of_unat: "of_nat (unat ch) = (ch :: byte)"
  by simp

lemma encode_1:
  assumes "unat ch < 0x80"
  shows "utf8_encode_char (unat ch) = [ch]"
  using assms by (simp add: utf8_encode_char_def)

lemma encode_2:
  assumes "0xC2 \<le> unat ch" "unat ch < 0xE0" "0x80 \<le> unat ch2" "unat ch2 < 0xC0"
  shows "utf8_encode_char (unat ch * 2 ^ 6 + unat ch2 - (0xC0 * 2 ^ 6 + 0x80)) = [ch, ch2]"
proof -
  define a b where "a = unat ch - 0xC0" and "b = unat ch2 - 0x80"
  have ab: "unat ch = 0xC0 + a" "unat ch2 = 0x80 + b" "2 \<le> a" "a < 32" "b < 64"
    using assms by (simp_all add: a_def b_def)
  define c where "c = a * 64 + b"
  have c: "unat ch * 2 ^ 6 + unat ch2 - (0xC0 * 2 ^ 6 + 0x80) = c"
    by (simp add: ab c_def)
  have r: "0x80 \<le> c" "c < 0x800" using ab by (simp_all add: c_def)
  have d: "c div 64 = a" "c mod 64 = b" using ab by (simp_all add: c_def)
  have "of_nat (0xC0 + a) = ch" "of_nat (0x80 + b) = ch2"
    using byte_of_unat [of ch] byte_of_unat [of ch2] by (simp_all only: ab)
  then show ?thesis
    unfolding c using r d by (simp add: utf8_encode_char_def)
qed

lemma encode_3:
  assumes "0xE0 \<le> unat ch" "unat ch < 0xF0" "0x80 \<le> unat ch2" "unat ch2 < 0xC0"
    "0x80 \<le> unat ch3" "unat ch3 < 0xC0" "unat ch = 0xE0 \<longrightarrow> 0xA0 \<le> unat ch2"
  shows "utf8_encode_char
      (unat ch * 2 ^ 12 + unat ch2 * 2 ^ 6 + unat ch3 - (0xE0 * 2 ^ 12 + 0x80 * 2 ^ 6 + 0x80))
    = [ch, ch2, ch3]"
proof -
  define a b d where "a = unat ch - 0xE0" and "b = unat ch2 - 0x80" and "d = unat ch3 - 0x80"
  have ab: "unat ch = 0xE0 + a" "unat ch2 = 0x80 + b" "unat ch3 = 0x80 + d"
    "a < 16" "b < 64" "d < 64" "a = 0 \<longrightarrow> 32 \<le> b"
    using assms by (auto simp: a_def b_def d_def)
  define q where "q = a * 64 + b"
  define c where "c = q * 64 + d"
  have c: "unat ch * 2 ^ 12 + unat ch2 * 2 ^ 6 + unat ch3 - (0xE0 * 2 ^ 12 + 0x80 * 2 ^ 6 + 0x80) = c"
    by (simp add: ab c_def q_def)
  have q: "32 \<le> q" "q < 1024" using ab by (auto simp: q_def)
  have r: "0x800 \<le> c" "c < 0x10000" using q ab by (simp_all add: c_def)
  have d1: "c div 64 = q" "c mod 64 = d" using ab by (simp_all add: c_def)
  have d2: "q div 64 = a" "q mod 64 = b" using ab by (simp_all add: q_def)
  have "c div 4096 = c div 64 div 64" by (simp add: div_mult2_eq)
  then have d3: "c div 4096 = a" "c div 64 mod 64 = b" by (simp_all add: d1 d2)
  have "of_nat (0xE0 + a) = ch" "of_nat (0x80 + b) = ch2" "of_nat (0x80 + d) = ch3"
    using byte_of_unat [of ch] byte_of_unat [of ch2] byte_of_unat [of ch3]
    by (simp_all only: ab)
  then show ?thesis
    unfolding c using r d1 d3 by (simp add: utf8_encode_char_def)
qed

lemma encode_4:
  assumes "0xF0 \<le> unat ch" "unat ch < 0xF5" "0x80 \<le> unat ch2" "unat ch2 < 0xC0"
    "0x80 \<le> unat ch3" "unat ch3 < 0xC0" "0x80 \<le> unat ch4" "unat ch4 < 0xC0"
    "unat ch = 0xF0 \<longrightarrow> 0x90 \<le> unat ch2"
  shows "utf8_encode_char
      (unat ch * 2 ^ 18 + unat ch2 * 2 ^ 12 + unat ch3 * 2 ^ 6 + unat ch4
        - (0xF0 * 2 ^ 18 + 0x80 * 2 ^ 12 + 0x80 * 2 ^ 6 + 0x80))
    = [ch, ch2, ch3, ch4]"
proof -
  define a b d e where "a = unat ch - 0xF0" and "b = unat ch2 - 0x80"
    and "d = unat ch3 - 0x80" and "e = unat ch4 - 0x80"
  have ab: "unat ch = 0xF0 + a" "unat ch2 = 0x80 + b" "unat ch3 = 0x80 + d" "unat ch4 = 0x80 + e"
    "a < 5" "b < 64" "d < 64" "e < 64" "a = 0 \<longrightarrow> 16 \<le> b"
    using assms by (auto simp: a_def b_def d_def e_def)
  define p where "p = a * 64 + b"
  define q where "q = p * 64 + d"
  define c where "c = q * 64 + e"
  have c: "unat ch * 2 ^ 18 + unat ch2 * 2 ^ 12 + unat ch3 * 2 ^ 6 + unat ch4
        - (0xF0 * 2 ^ 18 + 0x80 * 2 ^ 12 + 0x80 * 2 ^ 6 + 0x80) = c"
    by (simp add: ab c_def q_def p_def)
  have p: "16 \<le> p" "p < 320" using ab by (auto simp: p_def)
  have q: "1024 \<le> q" using p by (simp add: q_def)
  have r: "0x10000 \<le> c" using q by (simp add: c_def)
  have d1: "c div 64 = q" "c mod 64 = e" using ab by (simp_all add: c_def)
  have d2: "q div 64 = p" "q mod 64 = d" using ab by (simp_all add: q_def)
  have d3: "p div 64 = a" "p mod 64 = b" using ab by (simp_all add: p_def)
  have "c div 4096 = c div 64 div 64" "c div 262144 = c div 64 div 64 div 64"
    by (simp_all add: div_mult2_eq)
  then have d4: "c div 262144 = a" "c div 4096 mod 64 = b" "c div 64 mod 64 = d"
    by (simp_all add: d1 d2 d3)
  have "of_nat (0xF0 + a) = ch" "of_nat (0x80 + b) = ch2" "of_nat (0x80 + d) = ch3"
    "of_nat (0x80 + e) = ch4"
    using byte_of_unat [of ch] byte_of_unat [of ch2] byte_of_unat [of ch3] byte_of_unat [of ch4]
    by (simp_all only: ab)
  then show ?thesis
    unfolding c using r d1 d4 by (simp add: utf8_encode_char_def)
qed

text \<open>
  One step of the decoder: it either drops a nonempty prefix of the input or decodes it
  to one code point whose encoding is that prefix.
\<close>

lemma utf8_encode_simps:
  "utf8_encode [] = []"
  "utf8_encode (c # cs) = utf8_encode_char c @ utf8_encode cs"
  by (simp_all add: utf8_encode_def)

lemma byte_eq_consts:
  "ch = 0xE0 \<longleftrightarrow> unat ch = 0xE0" "ch = 0xED \<longleftrightarrow> unat ch = 0xED"
  "ch = 0xF0 \<longleftrightarrow> unat ch = 0xF0" "ch = 0xF4 \<longleftrightarrow> unat ch = 0xF4"
  for ch :: byte
  by (simp_all add: word_unat_eq_iff)

lemma decode_step_exists: "\<exists>pre cps rest. decode_step (ch # s) pre cps rest"
proof -
  consider (ascii) "ch < 0x80"
    | (stray) "\<not> ch < 0x80" "ch < 0xC2"
    | (two) "\<not> ch < 0x80" "\<not> ch < 0xC2" "ch < 0xE0"
    | (three) "\<not> ch < 0x80" "\<not> ch < 0xC2" "\<not> ch < 0xE0" "ch < 0xF0"
    | (four) "\<not> ch < 0x80" "\<not> ch < 0xC2" "\<not> ch < 0xE0" "\<not> ch < 0xF0" "ch < 0xF5"
    | (high) "\<not> ch < 0x80" "\<not> ch < 0xC2" "\<not> ch < 0xE0" "\<not> ch < 0xF0" "\<not> ch < 0xF5"
    by blast
  then show ?thesis
  proof cases
    case ascii
    then have "unat ch < 0x80" by (simp add: byte_less)
    then have "utf8_encode [unat ch] = [ch]" by (simp add: utf8_encode_simps encode_1)
    moreover have "utf8_decode_ignore (ch # s) = unat ch # utf8_decode_ignore s"
      using ascii by (subst utf8_decode_ignore.simps)
            (simp only: if_True if_False list.case not_True_eq_False not_False_eq_True)
    ultimately have "decode_step (ch # s) [ch] [unat ch] s"
      by (simp add: decode_step_def del: utf8_decode_ignore.simps)
    then show ?thesis by blast
  next
    case stray
    then have "utf8_decode_ignore (ch # s) = utf8_decode_ignore s"
      by (subst utf8_decode_ignore.simps)
        (simp only: if_True if_False list.case not_True_eq_False not_False_eq_True)
    then have "decode_step (ch # s) [ch] [] s"
      by (simp add: decode_step_def del: utf8_decode_ignore.simps)
    then show ?thesis by blast
  next
    case high
    then have "utf8_decode_ignore (ch # s) = utf8_decode_ignore s"
      by (subst utf8_decode_ignore.simps)
        (simp only: if_True if_False list.case not_True_eq_False not_False_eq_True)
    then have "decode_step (ch # s) [ch] [] s"
      by (simp add: decode_step_def del: utf8_decode_ignore.simps)
    then show ?thesis by blast
  next
    case two
    show ?thesis
    proof (cases s)
      case Nil
      have "utf8_decode_ignore (ch # s) = []"
        using two Nil
        by (subst utf8_decode_ignore.simps)
          (simp only: if_True if_False list.case not_True_eq_False not_False_eq_True)
      then have "decode_step (ch # s) [ch] [] []"
        using Nil
        by (simp add: decode_step_def utf8_decode_ignore.simps(1) del: utf8_decode_ignore.simps(2))
      then show ?thesis by blast
    next
      case (Cons ch2 s2)
      show ?thesis
      proof (cases "is_continuation_byte ch2")
        case False
        have "utf8_decode_ignore (ch # s) = utf8_decode_ignore s"
          using two Cons False
          by (subst utf8_decode_ignore.simps)
            (simp only: if_True if_False list.case not_True_eq_False not_False_eq_True)
        then have "decode_step (ch # s) [ch] [] s"
          using Cons
          by (simp add: decode_step_def utf8_decode_ignore.simps(1) del: utf8_decode_ignore.simps(2))
        then show ?thesis by blast
      next
        case True
        have n: "0xC2 \<le> unat ch" "unat ch < 0xE0" "0x80 \<le> unat ch2" "unat ch2 < 0xC0"
          using two True by (simp_all add: byte_less byte_le is_continuation_byte_def)
        have "decode_step (ch # s) [ch, ch2]
            [unat ch * 2 ^ 6 + unat ch2 - (0xC0 * 2 ^ 6 + 0x80)] s2"
          unfolding decode_step_def Cons
          using decode_2 [OF n] encode_2 [OF n]
          by (simp add: utf8_encode_simps del: utf8_decode_ignore.simps)
        then show ?thesis by blast
      qed
    qed
  next
    case three
    show ?thesis
    proof (cases s)
      case Nil
      have "utf8_decode_ignore (ch # s) = []"
        using three Nil
        by (subst utf8_decode_ignore.simps)
          (simp only: if_True if_False list.case not_True_eq_False not_False_eq_True)
      then have "decode_step (ch # s) [ch] [] []"
        using Nil
        by (simp add: decode_step_def utf8_decode_ignore.simps(1) del: utf8_decode_ignore.simps(2))
      then show ?thesis by blast
    next
      case s: (Cons ch2 s2)
      show ?thesis
      proof (cases "\<not> is_continuation_byte ch2 \<or> (if ch2 < 0xA0 then ch = 0xE0 else ch = 0xED)")
        case True
        have "utf8_decode_ignore (ch # s) = utf8_decode_ignore s"
          using three s True
          by (subst utf8_decode_ignore.simps)
            (simp only: if_True if_False list.case not_True_eq_False not_False_eq_True)
        then have "decode_step (ch # s) [ch] [] s"
          using s
          by (simp add: decode_step_def utf8_decode_ignore.simps(1) del: utf8_decode_ignore.simps(2))
        then show ?thesis by blast
      next
        case ok2: False
        show ?thesis
        proof (cases s2)
          case Nil
          have "utf8_decode_ignore (ch # s) = []"
            using three s ok2 Nil
            by (subst utf8_decode_ignore.simps)
              (simp only: if_True if_False list.case not_True_eq_False not_False_eq_True)
          then have "decode_step (ch # s) [ch, ch2] [] []"
            using s Nil
            by (simp add: decode_step_def utf8_decode_ignore.simps(1) del: utf8_decode_ignore.simps(2))
          then show ?thesis by blast
        next
          case s2: (Cons ch3 s3)
          show ?thesis
          proof (cases "is_continuation_byte ch3")
            case False
            have "utf8_decode_ignore (ch # s) = utf8_decode_ignore s2"
              using three s ok2 s2 False
              by (subst utf8_decode_ignore.simps)
                (simp only: if_True if_False list.case not_True_eq_False not_False_eq_True)
            then have "decode_step (ch # s) [ch, ch2] [] s2"
              using s s2
              by (simp add: decode_step_def utf8_decode_ignore.simps(1) del: utf8_decode_ignore.simps(2))
            then show ?thesis by blast
          next
            case True
            have n: "0xE0 \<le> unat ch" "unat ch < 0xF0" "0x80 \<le> unat ch2" "unat ch2 < 0xC0"
              "0x80 \<le> unat ch3" "unat ch3 < 0xC0"
              "unat ch = 0xE0 \<longrightarrow> 0xA0 \<le> unat ch2"
              using three ok2 True
              by (auto simp: byte_less byte_le is_continuation_byte_def byte_eq_consts
                  split: if_splits)
            have m: "unat ch = 0xED \<longrightarrow> unat ch2 < 0xA0"
              using ok2 by (auto simp: byte_less byte_eq_consts split: if_splits)
            have "decode_step (ch # s) [ch, ch2, ch3]
                [unat ch * 2 ^ 12 + unat ch2 * 2 ^ 6 + unat ch3
                  - (0xE0 * 2 ^ 12 + 0x80 * 2 ^ 6 + 0x80)] s3"
              unfolding decode_step_def s s2
              using decode_3 [OF n m] encode_3 [OF n]
              by (simp add: utf8_encode_simps del: utf8_decode_ignore.simps)
            then show ?thesis by blast
          qed
        qed
      qed
    qed
  next
    case four
    show ?thesis
    proof (cases s)
      case Nil
      have "utf8_decode_ignore (ch # s) = []"
        using four Nil
        by (subst utf8_decode_ignore.simps)
          (simp only: if_True if_False list.case not_True_eq_False not_False_eq_True)
      then have "decode_step (ch # s) [ch] [] []"
        using Nil
        by (simp add: decode_step_def utf8_decode_ignore.simps(1) del: utf8_decode_ignore.simps(2))
      then show ?thesis by blast
    next
      case s: (Cons ch2 s2)
      show ?thesis
      proof (cases "\<not> is_continuation_byte ch2 \<or> (if ch2 < 0x90 then ch = 0xF0 else ch = 0xF4)")
        case True
        have "utf8_decode_ignore (ch # s) = utf8_decode_ignore s"
          using four s True
          by (subst utf8_decode_ignore.simps)
            (simp only: if_True if_False list.case not_True_eq_False not_False_eq_True)
        then have "decode_step (ch # s) [ch] [] s"
          using s
          by (simp add: decode_step_def utf8_decode_ignore.simps(1) del: utf8_decode_ignore.simps(2))
        then show ?thesis by blast
      next
        case ok2: False
        show ?thesis
        proof (cases s2)
          case Nil
          have "utf8_decode_ignore (ch # s) = []"
            using four s ok2 Nil
            by (subst utf8_decode_ignore.simps)
              (simp only: if_True if_False list.case not_True_eq_False not_False_eq_True)
          then have "decode_step (ch # s) [ch, ch2] [] []"
            using s Nil
            by (simp add: decode_step_def utf8_decode_ignore.simps(1) del: utf8_decode_ignore.simps(2))
          then show ?thesis by blast
        next
          case s2: (Cons ch3 s3)
          show ?thesis
          proof (cases "is_continuation_byte ch3")
            case False
            have "utf8_decode_ignore (ch # s) = utf8_decode_ignore s2"
              using four s ok2 s2 False
              by (subst utf8_decode_ignore.simps)
                (simp only: if_True if_False list.case not_True_eq_False not_False_eq_True)
            then have "decode_step (ch # s) [ch, ch2] [] s2"
              using s s2
              by (simp add: decode_step_def utf8_decode_ignore.simps(1) del: utf8_decode_ignore.simps(2))
            then show ?thesis by blast
          next
            case ok3: True
            show ?thesis
            proof (cases s3)
              case Nil
              have "utf8_decode_ignore (ch # s) = []"
                using four s ok2 s2 ok3 Nil
                by (subst utf8_decode_ignore.simps)
                  (simp only: if_True if_False list.case not_True_eq_False not_False_eq_True)
              then have "decode_step (ch # s) [ch, ch2, ch3] [] []"
                using s s2 Nil
                by (simp add: decode_step_def utf8_decode_ignore.simps(1) del: utf8_decode_ignore.simps(2))
              then show ?thesis by blast
            next
              case s3: (Cons ch4 s4)
              show ?thesis
              proof (cases "is_continuation_byte ch4")
                case False
                have "utf8_decode_ignore (ch # s) = utf8_decode_ignore s3"
                  using four s ok2 s2 ok3 s3 False
                  by (subst utf8_decode_ignore.simps)
                    (simp only: if_True if_False list.case not_True_eq_False not_False_eq_True)
                then have "decode_step (ch # s) [ch, ch2, ch3] [] s3"
                  using s s2 s3
                  by (simp add: decode_step_def utf8_decode_ignore.simps(1) del: utf8_decode_ignore.simps(2))
                then show ?thesis by blast
              next
                case True
                have n: "0xF0 \<le> unat ch" "unat ch < 0xF5" "0x80 \<le> unat ch2" "unat ch2 < 0xC0"
                  "0x80 \<le> unat ch3" "unat ch3 < 0xC0" "0x80 \<le> unat ch4" "unat ch4 < 0xC0"
                  "unat ch = 0xF0 \<longrightarrow> 0x90 \<le> unat ch2"
                  using four ok2 ok3 True
                  by (auto simp: byte_less byte_le is_continuation_byte_def byte_eq_consts
                      split: if_splits)
                have m: "unat ch = 0xF4 \<longrightarrow> unat ch2 < 0x90"
                  using ok2 by (auto simp: byte_less byte_eq_consts split: if_splits)
                have "decode_step (ch # s) [ch, ch2, ch3, ch4]
                    [unat ch * 2 ^ 18 + unat ch2 * 2 ^ 12 + unat ch3 * 2 ^ 6 + unat ch4
                      - (0xF0 * 2 ^ 18 + 0x80 * 2 ^ 12 + 0x80 * 2 ^ 6 + 0x80)] s4"
                  unfolding decode_step_def s s2 s3
                  using decode_4 [OF n m] encode_4 [OF n]
                  by (simp add: utf8_encode_simps del: utf8_decode_ignore.simps)
                then show ?thesis by blast
              qed
            qed
          qed
        qed
      qed
    qed
  qed
qed

lemma subseq_encode_decode: "subseq (utf8_encode (utf8_decode_ignore bs)) bs"
proof (induction "length bs" arbitrary: bs rule: less_induct)
  case less
  show ?case
  proof (cases bs)
    case Nil
    then show ?thesis by (simp add: utf8_encode_simps)
  next
    case (Cons ch s)
    from decode_step_exists [of ch s] obtain pre cps rest
      where st: "decode_step bs pre cps rest" unfolding Cons by blast
    then have "length rest < length bs" by (auto simp: decode_step_def)
    then have IH: "subseq (utf8_encode (utf8_decode_ignore rest)) rest" by (rule less)
    have e: "utf8_encode (cps @ xs) = utf8_encode cps @ utf8_encode xs" for xs
      by (simp add: utf8_encode_def)
    from st have "subseq (utf8_encode cps) pre"
      by (auto simp: decode_step_def utf8_encode_simps)
    then have "subseq (utf8_encode cps @ utf8_encode (utf8_decode_ignore rest)) (pre @ rest)"
      using IH by (rule list_emb_append_mono)
    moreover from st have b: "bs = pre @ rest"
      and d: "utf8_decode_ignore bs = cps @ utf8_decode_ignore rest"
      unfolding decode_step_def by blast+
    ultimately have "subseq (utf8_encode (utf8_decode_ignore bs)) (pre @ rest)"
      by (simp only: d e)
    with b show ?thesis by simp
  qed
qed

lemma decode_encode: "list_all unicode_scalar cs \<Longrightarrow> utf8_decode_ignore (utf8_encode cs) = cs"
  by (induction cs)
    (simp_all add: utf8_encode_simps decode_encode_char utf8_decode_ignore.simps(1)
      del: utf8_decode_ignore.simps(2))

section \<open>Properties of the extractor\<close>

lemma media_types_distinct:
  "py ''text/plain'' \<noteq> py ''application/pdf''"
  "py ''text/plain'' \<noteq>
     py ''application/vnd.openxmlformats-officedocument.wordprocessingml.document''"
  "py ''application/pdf'' \<noteq>
     py ''application/vnd.openxmlformats-officedocument.wordprocessingml.document''"
  "py ''application/pdf'' \<noteq> py ''text/plain''"
  by (simp_all add: py_def)

lemma page_loop_returns:
  "list_all (\<lambda>p. \<not> isl p) pages \<Longrightarrow>
   page_loop pages acc =
     Inr (acc @ concat (map (\<lambda>p. case p of Inr (Some t) \<Rightarrow> t | _ \<Rightarrow> []) pages))"
  by (induction pages arbitrary: acc) (auto simp: or_empty_def split: sum.splits option.splits)




text \<open>
  C9: when no document is supplied (\<open>None\<close>), \<open>extract_text_from_file\<close> returns the
  empty string at once and makes no Streamlit call, unlike the unsupported case, which
  shows a warning.
\<close>

theorem extract_absent_document:
  "extract_text_from_file rt None = (Inr [], [], None) \<and>
   fst (snd (extract_text_from_file rt None))
     \<noteq> fst (snd (extract_text_from_file rt
          (Some \<lparr>type = py ''image/png'', data = payload, pos = 0\<rparr>)))"
  by (simp add: extract_text_from_file_def py_def)

text \<open>
  C8: for a declared media type other than plain text, PDF and the word-processing type,
  \<open>extract_text_from_file\<close> returns the empty string and makes exactly one Streamlit
  call, the warning "Unsupported file type"; the file is not read.
\<close>

theorem extract_unsupported_type:
  assumes "type f \<notin> {py ''text/plain'', py ''application/pdf'',
     py ''application/vnd.openxmlformats-officedocument.wordprocessingml.document''}"
  shows "extract_text_from_file rt (Some f)
    = (Inr [], [st_warning (py ''Unsupported file type'')], Some f)"
  using assms by (simp add: extract_text_from_file_def)

theorem extract_unsupported_type_witness:
  "extract_text_from_file no_parsers
     (Some \<lparr>type = py ''image/png'', data = [0x89, 0x50, 0x4E, 0x47], pos = 0\<rparr>)
   = (Inr [], [st_warning (py ''Unsupported file type'')],
      Some \<lparr>type = py ''image/png'', data = [0x89, 0x50, 0x4E, 0x47], pos = 0\<rparr>)"
  by (rule extract_unsupported_type) (simp add: py_def)

text \<open>
  C5: for a payload declared as PDF that the installed \<open>PdfReader\<close> accepts, with N pages
  whose \<open>extract_text()\<close> returns, \<open>extract_text_from_file\<close> returns the page texts
  concatenated in page order with nothing between them, a page without text (\<open>None\<close>
  or the empty string) contributing the empty string; no Streamlit call is made.
\<close>

theorem extract_pdf_concatenates_pages:
  assumes "type f = py ''application/pdf''"
    and "PdfReader rt = Some reader"
    and "reader (data f) = Inr pages"
    and "list_all (\<lambda>p. \<not> isl p) pages"
  shows "fst (extract_text_from_file rt (Some f))
      = Inr (concat (map (\<lambda>p. case p of Inr (Some t) \<Rightarrow> t | _ \<Rightarrow> []) pages))
    \<and> fst (snd (extract_text_from_file rt (Some f))) = []"
  using assms
  by (simp add: extract_text_from_file_def media_types_distinct page_loop_returns)

theorem extract_pdf_concatenates_pages_witness:
  "fst (extract_text_from_file
      (stub_runtime [Inr (Some (py ''Alice '')), Inr None, Inr (Some []), Inr (Some (py ''Smith''))] [])
      (Some \<lparr>type = py ''application/pdf'', data = [0x25, 0x50, 0x44, 0x46], pos = 0\<rparr>))
    = Inr (py ''Alice Smith'')
   \<and> fst (snd (extract_text_from_file
      (stub_runtime [Inr (Some (py ''Alice '')), Inr None, Inr (Some []), Inr (Some (py ''Smith''))] [])
      (Some \<lparr>type = py ''application/pdf'', data = [0x25, 0x50, 0x44, 0x46], pos = 0\<rparr>))) = []"
proof -
  let ?pages = "[Inr (Some (py ''Alice '')), Inr None, Inr (Some []), Inr (Some (py ''Smith''))]"
  let ?f = "\<lparr>type = py ''application/pdf'', data = [0x25, 0x50, 0x44, 0x46], pos = 0\<rparr>"
  let ?reader = "\<lambda>payload :: byte list.
    if payload = [] then Inl (LibraryError ''EmptyFileError'') else Inr ?pages"
  have h1: "type ?f = py ''application/pdf''" by simp
  have h2: "PdfReader (stub_runtime ?pages []) = Some ?reader" by (simp add: stub_runtime_def)
  have h3: "?reader (data ?f) = Inr ?pages" by simp
  have h4: "list_all (\<lambda>p. \<not> isl p) ?pages" by simp
  from extract_pdf_concatenates_pages [OF h1 h2 h3 h4] show ?thesis by (simp add: py_def)
qed

text \<open>
  C6: for a payload declared as a word-processing document that the installed
  \<open>Document\<close> accepts, \<open>extract_text_from_file\<close> returns the paragraph texts in
  document order joined by a newline; the paragraphs "Alice Smith",
  "5 years experience", "Python, Go" give "Alice Smith\n5 years experience\nPython, Go".
\<close>

theorem extract_docx_joins_paragraphs:
  assumes "type f = py ''application/vnd.openxmlformats-officedocument.wordprocessingml.document''"
    and "Document rt = Some document"
    and "document (data f) = Inr paragraphs"
  shows "fst (extract_text_from_file rt (Some f)) = Inr (join [0x0A] paragraphs)
    \<and> fst (snd (extract_text_from_file rt (Some f))) = []
    \<and> join [0x0A] [py ''Alice Smith'', py ''5 years experience'', py ''Python, Go'']
        = py ''Alice Smith'' @ [0x0A] @ py ''5 years experience'' @ [0x0A] @ py ''Python, Go''
    \<and> length (join [0x0A] paragraphs) = sum_list (map length paragraphs) + (length paragraphs - 1)"
proof -
  have "length (join sep xs) = sum_list (map length xs) + length sep * (length xs - 1)"
    for sep xs
    by (induction sep xs rule: join.induct) simp_all
  from this [of "[0x0A]" paragraphs] assms show ?thesis
    by (simp add: extract_text_from_file_def media_types_distinct py_def)
qed

theorem extract_docx_joins_paragraphs_witness:
  "fst (extract_text_from_file
      (stub_runtime [] [py ''Alice Smith'', py ''5 years experience'', py ''Python, Go''])
      (Some \<lparr>type = py ''application/vnd.openxmlformats-officedocument.wordprocessingml.document'',
             data = [0x50, 0x4B, 0x03, 0x04], pos = 0\<rparr>))
    = Inr (py ''Alice Smith'' @ [0x0A] @ py ''5 years experience'' @ [0x0A] @ py ''Python, Go'')"
proof -
  let ?paragraphs = "[py ''Alice Smith'', py ''5 years experience'', py ''Python, Go'']"
  let ?f = "\<lparr>type = py ''application/vnd.openxmlformats-officedocument.wordprocessingml.document'',
             data = [0x50, 0x4B, 0x03, 0x04], pos = 0\<rparr>"
  let ?document = "\<lambda>payload :: byte list.
    if payload = [] then Inl (LibraryError ''BadZipFile'') else Inr ?paragraphs"
  have h1: "type ?f = py ''application/vnd.openxmlformats-officedocument.wordprocessingml.document''"
    by simp
  have h2: "Document (stub_runtime [] ?paragraphs) = Some ?document"
    by (simp add: stub_runtime_def)
  have h3: "?document (data ?f) = Inr ?paragraphs" by simp
  from extract_docx_joins_paragraphs [OF h1 h2 h3] show ?thesis by simp
qed

text \<open>
  C4, as the code has it: a second call on the same file object returns the same text and
  makes the same Streamlit calls for every declared type but plain text.  A plain-text
  file is read from the position of its stream, which the first call leaves at the end:
  the first call returns the decoding of the bytes from the position on, the second call
  the empty string.
\<close>

theorem extract_second_call:
  assumes "extract_text_from_file rt (Some f) = (r1, d1, f1)"
    and "extract_text_from_file rt f1 = (r2, d2, f2)"
  shows "(type f \<noteq> py ''text/plain'' \<longrightarrow> r2 = r1 \<and> d2 = d1) \<and>
    (type f = py ''text/plain'' \<longrightarrow>
       r1 = Inr (utf8_decode_ignore (drop (pos f) (data f))) \<and> r2 = Inr [] \<and> d1 = [] \<and> d2 = [])"
proof (cases "type f = py ''text/plain''")
  case True
  with assms(1) have "f1 = Some (snd (read f))"
    and r1: "r1 = Inr (utf8_decode_ignore (drop (pos f) (data f)))" and "d1 = []"
    by (auto simp: extract_text_from_file_def read_def)
  with assms(2) True show ?thesis
    by (auto simp: extract_text_from_file_def read_def)
next
  case False
  with assms show ?thesis
    by (auto simp: extract_text_from_file_def parsed_def split: if_splits option.splits sum.splits)
qed

theorem extract_second_call_witness:
  "fst (extract_text_from_file no_parsers
     (Some \<lparr>type = py ''text/plain'', data = [0x41], pos = 0\<rparr>)) = Inr [0x41] \<and>
   fst (extract_text_from_file no_parsers
     (Some \<lparr>type = py ''text/plain'', data = [0x41], pos = 1\<rparr>)) = Inr [] \<and>
   fst (extract_text_from_file (stub_runtime [Inr (Some (py ''Alice''))] [])
     (Some \<lparr>type = py ''application/pdf'', data = [0x25, 0x50, 0x44, 0x46], pos = 0\<rparr>))
     = Inr (py ''Alice'') \<and>
   fst (extract_text_from_file (stub_runtime [Inr (Some (py ''Alice''))] [])
     (Some \<lparr>type = py ''application/pdf'', data = [0x25, 0x50, 0x44, 0x46], pos = 4\<rparr>))
     = Inr (py ''Alice'')"
proof -
  let ?t = "\<lparr>type = py ''text/plain'', data = [0x41 :: byte], pos = 0\<rparr>"
  let ?t' = "\<lparr>type = py ''text/plain'', data = [0x41 :: byte], pos = 1\<rparr>"
  have t1: "extract_text_from_file no_parsers (Some ?t) = (Inr [0x41], [], Some ?t')"
    by (simp add: extract_text_from_file_def read_def)
  obtain r2 d2 f2 where t2: "extract_text_from_file no_parsers (Some ?t') = (r2, d2, f2)"
    by (metis prod_cases3)
  let ?rt = "stub_runtime [Inr (Some (py ''Alice''))] []"
  let ?p = "\<lparr>type = py ''application/pdf'', data = [0x25, 0x50, 0x44, 0x46 :: byte], pos = 0\<rparr>"
  let ?p' = "\<lparr>type = py ''application/pdf'', data = [0x25, 0x50, 0x44, 0x46 :: byte], pos = 4\<rparr>"
  have p1: "extract_text_from_file ?rt (Some ?p) = (Inr (py ''Alice''), [], Some ?p')"
    by (simp add: extract_text_from_file_def stub_runtime_def parsed_def media_types_distinct
        or_empty_def py_def)
  obtain q2 e2 g2 where p2: "extract_text_from_file ?rt (Some ?p') = (q2, e2, g2)"
    by (metis prod_cases3)
  from extract_second_call [OF t1 t2] extract_second_call [OF p1 p2] t1 t2 p1 p2
  show ?thesis by (simp add: py_def)
qed

text \<open>
  C4 as stated fails: on the plain-text file with the one byte 41, the first call returns
  "A" and the second call on the same object returns the empty string.
\<close>

theorem extract_second_call_counterexample:
  "fst (extract_text_from_file no_parsers
      (Some \<lparr>type = py ''text/plain'', data = [0x41], pos = 0\<rparr>)) = Inr [0x41]
   \<and> fst (extract_text_from_file no_parsers
      (snd (snd (extract_text_from_file no_parsers
        (Some \<lparr>type = py ''text/plain'', data = [0x41], pos = 0\<rparr>))))) = Inr []"
  by (simp add: extract_text_from_file_def read_def)


text \<open>
  C7: for every payload declared as plain text, \<open>extract_text_from_file\<close> raises
  nothing and makes no Streamlit call; it returns the decoding of the bytes read from the
  stream.  When these bytes are valid UTF-8 (the encoding of a list of scalar values) the
  result is that list; in general the result re-encodes to a subsequence of the bytes:
  bytes that are not valid UTF-8 are dropped and nothing else is changed.
\<close>

theorem extract_plain_text:
  assumes "type f = py ''text/plain''"
  shows "\<exists>s. extract_text_from_file rt (Some f) = (Inr s, [], Some (snd (read f)))
      \<and> s = utf8_decode_ignore (drop (pos f) (data f))
      \<and> (\<forall>cs. list_all unicode_scalar cs \<and> drop (pos f) (data f) = utf8_encode cs \<longrightarrow> s = cs)
      \<and> subseq (utf8_encode s) (drop (pos f) (data f))"
proof -
  let ?s = "utf8_decode_ignore (drop (pos f) (data f))"
  have "extract_text_from_file rt (Some f) = (Inr ?s, [], Some (snd (read f)))"
    using assms by (simp add: extract_text_from_file_def read_def)
  moreover have "\<forall>cs. list_all unicode_scalar cs \<and> drop (pos f) (data f) = utf8_encode cs
      \<longrightarrow> ?s = cs"
    using decode_encode by auto
  moreover have "subseq (utf8_encode ?s) (drop (pos f) (data f))"
    by (rule subseq_encode_decode)
  ultimately show ?thesis by blast
qed

theorem extract_plain_text_witness:
  "extract_text_from_file no_parsers
     (Some \<lparr>type = py ''text/plain'', data = [0x41, 0xFF, 0xC3, 0xA9, 0xE2, 0x82], pos = 0\<rparr>)
   = (Inr [0x41, 0xE9], [],
      Some \<lparr>type = py ''text/plain'', data = [0x41, 0xFF, 0xC3, 0xA9, 0xE2, 0x82], pos = 6\<rparr>)"
proof -
  let ?f = "\<lparr>type = py ''text/plain'', data = [0x41, 0xFF, 0xC3, 0xA9, 0xE2, 0x82 :: byte], pos = 0\<rparr>"
  have h: "type ?f = py ''text/plain''" by simp
  from extract_plain_text [OF h, of no_parsers] obtain s
    where "extract_text_from_file no_parsers (Some ?f) = (Inr s, [], Some (snd (read ?f)))"
      and "s = utf8_decode_ignore (drop (pos ?f) (data ?f))"
    by blast
  then show ?thesis by (simp add: read_def is_continuation_byte_def)
qed

section \<open>Properties of the JSON decoder\<close>

text \<open>Every function of the decoder that returns a value has consumed input.\<close>

lemma scanstring_consumes: "scanstring s acc = Inr (t, r) \<Longrightarrow> length r < length s"
proof (induction "length s" arbitrary: s acc rule: less_induct)
  case less
  have key: "length r < length s"
    if "scanstring s' acc' = Inr (t, r)" "length s' < length s" for s' acc'
    using less.hyps [OF that(2) that(1)] that(2) by simp
  show ?case
  proof (cases s)
    case Nil
    with less.prems show ?thesis by simp
  next
    case (Cons c s0)
    note p = less.prems [unfolded Cons]
    show ?thesis
    proof (cases "c = 0x22")
      case True
      with p Cons show ?thesis
        by (subst (asm) scanstring.simps(2)) (simp del: scanstring.simps)
    next
      case quote: False
      show ?thesis
      proof (cases "c = 0x5C")
        case False
        with quote p have "scanstring s0 (acc @ [c]) = Inr (t, r)"
          by (subst (asm) scanstring.simps(2)) (simp del: scanstring.simps split: if_splits)
        then show ?thesis by (rule key) (simp add: Cons)
      next
        case True
        with p obtain esc s1 where s0: "s0 = esc # s1"
          by (subst (asm) scanstring.simps(2)) (cases s0; simp del: scanstring.simps)
        note q = p [unfolded s0]
        show ?thesis
        proof (cases "esc = 0x75")
          case False
          with True q obtain char
            where "scanstring s1 (acc @ [char]) = Inr (t, r)"
            by (subst (asm) scanstring.simps(2))
              (auto simp del: scanstring.simps split: option.splits)
          then show ?thesis by (rule key) (simp add: Cons s0)
        next
          case u: True
          with True q obtain uni s2 where d: "decode_uXXXX s1 = Some (uni, s2)"
            by (subst (asm) scanstring.simps(2))
              (auto simp del: scanstring.simps split: option.splits)
          then have l2: "length s1 = length s2 + 4" by (rule decode_uXXXX_length)
          from True u q d
          consider (single) "scanstring s2 (acc @ [uni]) = Inr (t, r)"
            | (pair) b u' s3 uni2 s4 c2 where "s2 = b # u' # s3" "decode_uXXXX s3 = Some (uni2, s4)"
                "scanstring s4 (acc @ [c2]) = Inr (t, r)"
            by (subst (asm) scanstring.simps(2))
              (auto simp del: scanstring.simps split: list.splits if_splits option.splits)
          then show ?thesis
          proof cases
            case single
            then show ?thesis by (rule key) (simp add: Cons s0 l2)
          next
            case pair
            from pair(2) have l4: "length s3 = length s4 + 4" by (rule decode_uXXXX_length)
            from pair(3) show ?thesis by (rule key) (simp add: Cons s0 l2 l4 pair(1))
          qed
        qed
      qed
    qed
  qed
qed


lemma number_integer_consumes: "number_integer s = Some (i, r) \<Longrightarrow> length r < length s"
  using length_dropWhile_le [of is_digit "tl (tl s)"] length_dropWhile_le [of is_digit "tl s"]
  by (auto simp: number_integer_def split: list.splits if_splits)

lemma number_frac_consumes: "number_frac s = (f, r) \<Longrightarrow> length r \<le> length s"
  using length_dropWhile_le [of is_digit "tl (tl s)"]
  by (auto simp: number_frac_def split: list.splits if_splits)

lemma number_exp_consumes: "number_exp s = (e, r) \<Longrightarrow> length r \<le> length s"
  using length_dropWhile_le [of is_digit "tl (tl s)"] length_dropWhile_le [of is_digit "tl s"]
  by (auto simp: number_exp_def split: list.splits if_splits)

lemma match_number_consumes: "match_number s = Some (i, f, e, r) \<Longrightarrow> length r < length s"
  by (auto simp: match_number_def split: option.splits prod.splits
      dest!: number_integer_consumes number_frac_consumes number_exp_consumes)

lemmas scan_simps_off = scan_once.simps JSONObject_pairs.simps JSONArray_values.simps

lemma scan_consumes_all:
  "(\<forall>v r. scan_once s = Inr (v, r) \<longrightarrow> length r < length s) \<and>
   (\<forall>pairs v r. JSONObject_pairs s pairs = Inr (v, r) \<longrightarrow> length r < length s) \<and>
   (\<forall>vals v r. JSONArray_values s vals = Inr (v, r) \<longrightarrow> length r < length s)"
proof (induction "length s" arbitrary: s rule: less_induct)
  case less
  have IHo: "length r < length s"
    if "JSONObject_pairs s' pairs = Inr (v, r)" "length s' < length s" for s' pairs v r
    using less.hyps [OF that(2)] that(1,2) by (meson less_trans)
  have IHa: "length r < length s"
    if "JSONArray_values s' vals = Inr (v, r)" "length s' < length s" for s' vals v r
    using less.hyps [OF that(2)] that(1,2) by (meson less_trans)
  have IHs: "length r < length s"
    if "scan_once s' = Inr (v, r)" "length s' < length s" for s' v r
    using less.hyps [OF that(2)] that(1,2) by (meson less_trans)
  have A: "length r < length s" if p: "scan_once s = Inr (v, r)" for v r
  proof (cases s)
    case Nil
    with p show ?thesis by (subst (asm) scan_once.simps) simp
  next
    case (Cons c s1)
    note q = p [unfolded Cons]
    consider (str) "c = 0x22" | (obj) "c \<noteq> 0x22" "c = 0x7B"
      | (arr) "c \<noteq> 0x22" "c \<noteq> 0x7B" "c = 0x5B"
      | (other) "c \<noteq> 0x22" "c \<noteq> 0x7B" "c \<noteq> 0x5B"
      by blast
    then show ?thesis
    proof cases
      case str
      with q obtain t where "scanstring s1 [] = Inr (t, r)"
        by (subst (asm) scan_once.simps)
          (auto simp del: scan_simps_off split: sum.splits)
      from scanstring_consumes [OF this] show ?thesis by (simp add: Cons)
    next
      case obj
      with q obtain c' r' where w: "skip_ws s1 = c' # r'"
        and "c' = 0x7D \<and> r = r' \<or> JSONObject_pairs r' [] = Inr (v, r)"
        by (subst (asm) scan_once.simps)
          (auto simp del: scan_simps_off split: list.splits if_splits)
      moreover from w have "length r' < length s1" by (rule skip_ws_Cons_length)
      ultimately show ?thesis using IHo [of r' "[]" v r] by (auto simp: Cons)
    next
      case arr
      with q obtain c' r' where w: "skip_ws s1 = c' # r'"
        and "c' = 0x5D \<and> r = r' \<or> JSONArray_values (c' # r') [] = Inr (v, r)"
        by (subst (asm) scan_once.simps)
          (auto simp del: scan_simps_off split: list.splits if_splits)
      moreover from w have "length r' < length s1" by (rule skip_ws_Cons_length)
      ultimately show ?thesis using IHa [of "c' # r'" "[]" v r] by (auto simp: Cons)
    next
      case other
      have lit: "length (drop n (c # s1)) < Suc (length s1)" if "0 < n" for n
        using that by simp
      from other q have "(prefix (py ''null'') (c # s1) \<and> r = drop 4 (c # s1))
        \<or> (prefix (py ''true'') (c # s1) \<and> r = drop 4 (c # s1))
        \<or> (prefix (py ''false'') (c # s1) \<and> r = drop 5 (c # s1))
        \<or> (\<exists>i f e. match_number (c # s1) = Some (i, f, e, r))
        \<or> (prefix (py ''NaN'') (c # s1) \<and> r = drop 3 (c # s1))
        \<or> (prefix (py ''Infinity'') (c # s1) \<and> r = drop 8 (c # s1))
        \<or> (prefix (py ''-Infinity'') (c # s1) \<and> r = drop 9 (c # s1))"
        by (subst (asm) scan_once.simps)
          (simp del: scan_simps_off split: if_splits option.splits prod.splits)
      then show ?thesis
        using lit match_number_consumes [of "c # s1"] unfolding Cons by fastforce
    qed
  qed
  have IHs': "length r < length s"
    if "scan_once (skip_ws x) = Inr (v, r)" "length x < length s" for x v r
    using that(1) by (rule IHs) (rule skip_ws_less [OF that(2)])
  have IHa': "length r < length s"
    if "JSONArray_values (skip_ws x) vals = Inr (v, r)" "length x < length s" for x vals v r
    using that(1) by (rule IHa) (rule skip_ws_less [OF that(2)])
  have Bo: "length r < length s" if p: "JSONObject_pairs s pairs = Inr (v, r)" for pairs v r
  proof -
    from p obtain key r0 r1 v' r2 c r3
      where "scanstring s [] = Inr (key, r0)" "skip_ws r0 = 0x3A # r1" "length r1 < length s"
        "scan_once (skip_ws r1) = Inr (v', r2)" and w: "skip_ws r2 = c # r3"
        and e: "c = 0x7D \<and> r = r3 \<or>
          (\<exists>r4. length r4 < length s \<and> JSONObject_pairs r4 (pairs @ [(key, v')]) = Inr (v, r))"
      by (subst (asm) JSONObject_pairs.simps)
        (auto simp del: scan_simps_off split: sum.splits prod.splits list.splits if_splits)
    from this(4,3) have "length r2 < length s" by (rule IHs')
    moreover from w have "length r3 < length r2" by (rule skip_ws_Cons_length)
    ultimately show ?thesis using e IHo by fastforce
  qed
  have Ba: "length r < length s" if p: "JSONArray_values s vals = Inr (v, r)" for vals v r
  proof -
    from p obtain v' r0 c r1
      where s: "scan_once s = Inr (v', r0)" and w: "skip_ws r0 = c # r1"
        and e: "c = 0x5D \<and> r = r1 \<or>
          (length r1 < length s \<and> JSONArray_values (skip_ws r1) (vals @ [v']) = Inr (v, r))"
      by (subst (asm) JSONArray_values.simps)
        (auto simp del: scan_simps_off split: sum.splits prod.splits list.splits if_splits)
    from s have "length r0 < length s" by (rule A)
    moreover from w have "length r1 < length r0" by (rule skip_ws_Cons_length)
    ultimately show ?thesis using e IHa' by fastforce
  qed
  from A Bo Ba show ?case by blast
qed

lemma scan_once_consumes: "scan_once s = Inr (v, r) \<Longrightarrow> length r < length s"
  using scan_consumes_all [of s] by blast

lemma scan_once_skip_ws_consumes: "scan_once (skip_ws x) = Inr (v, r) \<Longrightarrow> length r < length x"
  using scan_once_consumes [of "skip_ws x" v r] length_skip_ws [of x] by simp

text \<open>
  The comparisons of lengths in \<open>JSONObject_pairs\<close> and \<open>JSONArray_values\<close> only serve
  the termination proof: they always hold, and the functions satisfy the equations
  without them.
\<close>

lemma JSONObject_pairs_unguarded:
  "JSONObject_pairs s pairs =
    (case scanstring s [] of
       Inl e \<Rightarrow> Inl e
     | Inr (key, r) \<Rightarrow>
         (case skip_ws r of
            [] \<Rightarrow> Inl JSONDecodeError
          | colon # r1 \<Rightarrow>
              if colon \<noteq> 0x3A then Inl JSONDecodeError
              else
                (case scan_once (skip_ws r1) of
                   Inl e \<Rightarrow> Inl e
                 | Inr (v, r2) \<Rightarrow>
                     (case skip_ws r2 of
                        [] \<Rightarrow> Inl JSONDecodeError
                      | c # r3 \<Rightarrow>
                          if c = 0x7D then Inr (PDict (dict (pairs @ [(key, v)])), r3)
                          else if c \<noteq> 0x2C then Inl JSONDecodeError
                          else
                            (case skip_ws r3 of
                               [] \<Rightarrow> Inl JSONDecodeError
                             | q # r4 \<Rightarrow>
                                 if q \<noteq> 0x22 then Inl JSONDecodeError
                                 else JSONObject_pairs r4 (pairs @ [(key, v)]))))))"
  by (subst JSONObject_pairs.simps)
    (auto simp del: scan_simps_off split: sum.splits prod.splits list.splits
      dest!: scanstring_consumes skip_ws_Cons_length scan_once_skip_ws_consumes)

lemma JSONArray_values_unguarded:
  "JSONArray_values s vals =
    (case scan_once s of
       Inl e \<Rightarrow> Inl e
     | Inr (v, r) \<Rightarrow>
         (case skip_ws r of
            [] \<Rightarrow> Inl JSONDecodeError
          | c # r1 \<Rightarrow>
              if c = 0x5D then Inr (PList (vals @ [v]), r1)
              else if c \<noteq> 0x2C then Inl JSONDecodeError
              else JSONArray_values (skip_ws r1) (vals @ [v])))"
  by (subst JSONArray_values.simps)
    (auto simp del: scan_simps_off split: sum.splits prod.splits list.splits
      dest!: scan_once_consumes skip_ws_Cons_length)

section \<open>Properties of the evaluation\<close>

lemmas json_eval =
  py_def skip_ws_def is_ws_def is_digit_def decode_uXXXX_def hex_digit_def backslash_def
  number_frac_def number_exp_def number_integer_def match_number_def digits_value_def
  parse_int_def dict_def json_loads_def

text \<open>
  C2: when the first choice of the service response has a body that \<open>json.loads\<close>
  parses, \<open>analyze_resume\<close> returns the parsed value itself, whatever its fields, their
  types or its verdict.  For the response body of the claim the result has
  \<open>match_score\<close> 82, \<open>verdict\<close> "Strong match" and \<open>strengths\<close> ["a"].
\<close>

theorem analyze_returns_parsed:
  assumes "client (request resume_text jd_text) = Inr (Some body # choices)"
    and "json_loads (Some body) = Inr result"
  shows \<open>analyze_resume client resume_text jd_text = Inr result \<and>
    (body = py ''{"match_score": 82, "verdict": "Strong match", "summary": "...", "strengths": ["a"], "gaps": ["b"], "improvement_suggestions": ["c"], "recommended_role_level": "Mid-level"}''
      \<longrightarrow> getitem result (py ''match_score'') = Inr (PInt 82)
        \<and> getitem result (py ''verdict'') = Inr (PStr (py ''Strong match''))
        \<and> getitem result (py ''strengths'') = Inr (PList [PStr (py ''a'')])
        \<and> map fst (case result of PDict d \<Rightarrow> d | _ \<Rightarrow> []) =
            [py ''match_score'', py ''verdict'', py ''summary'', py ''strengths'', py ''gaps'',
             py ''improvement_suggestions'', py ''recommended_role_level''])\<close>
proof -
  have ex: \<open>json_loads (Some (py ''{"match_score": 82, "verdict": "Strong match", "summary": "...", "strengths": ["a"], "gaps": ["b"], "improvement_suggestions": ["c"], "recommended_role_level": "Mid-level"}''))
    = Inr (PDict
       [(py ''match_score'', PInt 82),
        (py ''verdict'', PStr (py ''Strong match'')),
        (py ''summary'', PStr (py ''...'')),
        (py ''strengths'', PList [PStr (py ''a'')]),
        (py ''gaps'', PList [PStr (py ''b'')]),
        (py ''improvement_suggestions'', PList [PStr (py ''c'')]),
        (py ''recommended_role_level'', PStr (py ''Mid-level''))])\<close>
    by (simp add: json_eval)
  have "analyze_resume client resume_text jd_text = Inr result"
    using assms by (simp add: analyze_resume_def)
  moreover have \<open>getitem result (py ''match_score'') = Inr (PInt 82)
        \<and> getitem result (py ''verdict'') = Inr (PStr (py ''Strong match''))
        \<and> getitem result (py ''strengths'') = Inr (PList [PStr (py ''a'')])
        \<and> map fst (case result of PDict d \<Rightarrow> d | _ \<Rightarrow> []) =
            [py ''match_score'', py ''verdict'', py ''summary'', py ''strengths'', py ''gaps'',
             py ''improvement_suggestions'', py ''recommended_role_level'']\<close>
    if \<open>body = py ''{"match_score": 82, "verdict": "Strong match", "summary": "...", "strengths": ["a"], "gaps": ["b"], "improvement_suggestions": ["c"], "recommended_role_level": "Mid-level"}''\<close>
  proof -
    from that assms(2) ex have r: "result = PDict
       [(py ''match_score'', PInt 82),
        (py ''verdict'', PStr (py ''Strong match'')),
        (py ''summary'', PStr (py ''...'')),
        (py ''strengths'', PList [PStr (py ''a'')]),
        (py ''gaps'', PList [PStr (py ''b'')]),
        (py ''improvement_suggestions'', PList [PStr (py ''c'')]),
        (py ''recommended_role_level'', PStr (py ''Mid-level''))]"
      by simp
    show ?thesis unfolding r by (simp add: getitem_def py_def)
  qed
  ultimately show ?thesis by blast
qed

theorem analyze_returns_parsed_witness:
  \<open>analyze_resume
     (canned_client [Some (py ''{"match_score": 82, "verdict": "Strong match", "summary": "...", "strengths": ["a"], "gaps": ["b"], "improvement_suggestions": ["c"], "recommended_role_level": "Mid-level"}'')])
     (py ''Python, Go'') (py ''Backend engineer'')
   = Inr (PDict
       [(py ''match_score'', PInt 82),
        (py ''verdict'', PStr (py ''Strong match'')),
        (py ''summary'', PStr (py ''...'')),
        (py ''strengths'', PList [PStr (py ''a'')]),
        (py ''gaps'', PList [PStr (py ''b'')]),
        (py ''improvement_suggestions'', PList [PStr (py ''c'')]),
        (py ''recommended_role_level'', PStr (py ''Mid-level''))])
   \<and> analyze_resume (canned_client [Some (py ''{"verdict": "Maybe", "match_score": "high"}'')])
     (py ''Python, Go'') (py ''Backend engineer'')
   = Inr (PDict [(py ''verdict'', PStr (py ''Maybe'')), (py ''match_score'', PStr (py ''high''))])\<close>
proof -
  let ?body = \<open>py ''{"match_score": 82, "verdict": "Strong match", "summary": "...", "strengths": ["a"], "gaps": ["b"], "improvement_suggestions": ["c"], "recommended_role_level": "Mid-level"}''\<close>
  let ?body2 = \<open>py ''{"verdict": "Maybe", "match_score": "high"}''\<close>
  have c: "canned_client [Some b] (request (py ''Python, Go'') (py ''Backend engineer''))
      = Inr (Some b # [])" for b
    by (simp add: canned_client_def)
  have p: \<open>json_loads (Some ?body) = Inr (PDict
       [(py ''match_score'', PInt 82),
        (py ''verdict'', PStr (py ''Strong match'')),
        (py ''summary'', PStr (py ''...'')),
        (py ''strengths'', PList [PStr (py ''a'')]),
        (py ''gaps'', PList [PStr (py ''b'')]),
        (py ''improvement_suggestions'', PList [PStr (py ''c'')]),
        (py ''recommended_role_level'', PStr (py ''Mid-level''))])\<close>
    by (simp add: json_eval)
  have p2: \<open>json_loads (Some ?body2) =
      Inr (PDict [(py ''verdict'', PStr (py ''Maybe'')), (py ''match_score'', PStr (py ''high''))])\<close>
    by (simp add: json_eval)
  from analyze_returns_parsed [where client = "canned_client [Some ?body]", OF c p]
    analyze_returns_parsed [where client = "canned_client [Some ?body2]", OF c p2]
  show ?thesis by blast
qed



text \<open>
  C10: \<open>main\<close> tells a parse failure from a success by \<open>"error" in result\<close> alone.  The
  response body \<open>{"error": "x", "raw": "y"}\<close> is a valid JSON object, \<open>analyze_resume\<close>
  returns its parse, and \<open>main\<close> shows it as it shows a parse failure: the error
  message followed by the text of \<open>raw\<close>.  On any parsed object \<open>main\<close> starts with
  that error message exactly when the object has a key \<open>error\<close>.
\<close>

theorem error_key_decides_rendering:
  \<open>json_loads (Some (py ''{"error": "x", "raw": "y"}''))
      = Inr (PDict [(py ''error'', PStr (py ''x'')), (py ''raw'', PStr (py ''y''))])
   \<and> analyze_resume (canned_client [Some (py ''{"error": "x", "raw": "y"}'')]) resume_text jd_text
      = Inr (PDict [(py ''error'', PStr (py ''x'')), (py ''raw'', PStr (py ''y''))])
   \<and> main_result (PDict [(py ''error'', PStr (py ''x'')), (py ''raw'', PStr (py ''y''))])
      = ([(page, st_error (py ''Model error: Could not parse response'')),
          (page, st_text (PStr (py ''y'')))], None)
   \<and> main_result (PDict [(py ''error'', PStr (py ''Invalid JSON from model'')),
                         (py ''raw'', PStr (py ''y''))])
      = main_result (PDict [(py ''error'', PStr (py ''x'')), (py ''raw'', PStr (py ''y''))])
   \<and> (hd (fst (main_result (PDict d))) = (page, st_error (py ''Model error: Could not parse response''))
        \<longleftrightarrow> py ''error'' \<in> fst ` set d)\<close>
proof -
  have p: \<open>json_loads (Some (py ''{"error": "x", "raw": "y"}''))
      = Inr (PDict [(py ''error'', PStr (py ''x'')), (py ''raw'', PStr (py ''y''))])\<close>
    by (simp add: json_eval)
  then have a: \<open>analyze_resume (canned_client [Some (py ''{"error": "x", "raw": "y"}'')])
      resume_text jd_text
      = Inr (PDict [(py ''error'', PStr (py ''x'')), (py ''raw'', PStr (py ''y''))])\<close>
    by (simp add: analyze_resume_def canned_client_def)
  have m: "main_result (PDict [(py ''error'', PStr v), (py ''raw'', PStr (py ''y''))])
      = ([(page, st_error (py ''Model error: Could not parse response'')),
          (page, st_text (PStr (py ''y'')))], None)" for v
    by (simp add: main_result_def contains_def with_item_def getitem_def py_def)
  have g: "hd (fst (main_result (PDict d)))
      = (page, st_error (py ''Model error: Could not parse response''))
        \<longleftrightarrow> py ''error'' \<in> fst ` set d"
  proof (cases "py ''error'' \<in> fst ` set d")
    case True
    then show ?thesis
      by (simp add: main_result_def contains_def split: sum.splits prod.splits)
  next
    case False
    then show ?thesis
      by (simp add: main_result_def contains_def split: sum.splits prod.splits)
  qed
  from p a m g show ?thesis by simp
qed

end
